theory Spec2Isabelle
  imports Complex_Main "HOL-Library.Sublist"
begin

section \<open>The sources\<close>

text \<open>
  The repository holds two versions of its Express server. The first server file
  (\<open>src/unnamed/part_001\<close>) classifies one comment per request with \<open>analyzeSentiment\<close>,
  paces the requests with a sequential \<open>rateLimiter\<close> and keeps classified comments in a
  MongoDB collection. The later server file (the server text inside
  \<open>src/yt-analyzer/src/App.tsx\<close>) adds \<open>analyzeAllComments\<close>, a batched
  \<open>rateLimiter\<close> and longer keyword lists. Both are modelled below, function by function.
\<close>

section \<open>Strings\<close>

text \<open>
  JavaScript strings are modelled as \<^typ>\<open>string\<close> (lists of bytes). Case mapping is the
  ASCII one: \<open>A\<close>..\<open>Z\<close> and \<open>a\<close>..\<open>z\<close> differ in bit 5 (value 32), every other
  byte is left alone.
\<close>

definition toLowerCaseChar :: "char \<Rightarrow> char" where
  "toLowerCaseChar c =
     (let n = (of_char c :: nat) in
      if 65 \<le> n \<and> n \<le> 90
      then (case c of Char b0 b1 b2 b3 b4 b5 b6 b7 \<Rightarrow> Char b0 b1 b2 b3 b4 True b6 b7)
      else c)"

definition toUpperCaseChar :: "char \<Rightarrow> char" where
  "toUpperCaseChar c =
     (let n = (of_char c :: nat) in
      if 97 \<le> n \<and> n \<le> 122
      then (case c of Char b0 b1 b2 b3 b4 b5 b6 b7 \<Rightarrow> Char b0 b1 b2 b3 b4 False b6 b7)
      else c)"

definition toLowerCase :: "string \<Rightarrow> string" where
  "toLowerCase s = map toLowerCaseChar s"

definition toUpperCase :: "string \<Rightarrow> string" where
  "toUpperCase s = map toUpperCaseChar s"

text \<open>ASCII white space: tab, line feed, vertical tab, form feed, carriage return, space.\<close>

definition isSpace :: "char \<Rightarrow> bool" where
  "isSpace c = (let n = (of_char c :: nat) in (9 \<le> n \<and> n \<le> 13) \<or> n = 32)"

definition trim :: "string \<Rightarrow> string" where
  "trim s = rev (dropWhile isSpace (rev (dropWhile isSpace s)))"

fun startsWith :: "string \<Rightarrow> string \<Rightarrow> bool" where
  "startsWith s [] = True"
| "startsWith [] (w # ws) = False"
| "startsWith (c # cs) (w # ws) = (c = w \<and> startsWith cs ws)"

text \<open>\<open>s.includes(w)\<close>: does \<open>w\<close> occur somewhere in \<open>s\<close> as a contiguous run.\<close>

fun str_includes :: "string \<Rightarrow> string \<Rightarrow> bool" where
  "str_includes [] w = (w = [])"
| "str_includes (c # cs) w = (startsWith (c # cs) w \<or> str_includes cs w)"

section \<open>Sentiments and the keyword fallback\<close>

datatype sentiment = Agree | Disagree | Neutral

text \<open>The word lists of the first server file (\<open>fallbackSentimentAnalysis\<close>).\<close>

definition positiveWords :: "string list" where
  "positiveWords = [''good'', ''great'', ''awesome'', ''love'', ''like'']"

definition negativeWords :: "string list" where
  "negativeWords = [''bad'', ''terrible'', ''hate'', ''dislike'', ''awful'']"

text \<open>The longer word lists of the later server file.\<close>

definition positiveWords_v2 :: "string list" where
  "positiveWords_v2 =
     [''good'', ''great'', ''awesome'', ''love'', ''like'', ''cool'', ''nice'', ''amazing'',
      ''fantastic'', ''excellent'', ''best'', ''beautiful'', ''wonderful'', ''perfect'']"

definition negativeWords_v2 :: "string list" where
  "negativeWords_v2 =
     [''bad'', ''terrible'', ''hate'', ''dislike'', ''awful'', ''gross'', ''cringe'',
      ''disgusting'', ''horrible'', ''worst'', ''sucks'', ''stupid'', ''trash'']"

text \<open>The body shared by both versions: only the two word lists differ.\<close>

definition keywordSentiment :: "string list \<Rightarrow> string list \<Rightarrow> string \<Rightarrow> sentiment" where
  "keywordSentiment pos neg comment =
     (let lowerCaseComment = toLowerCase comment;
          positiveCount = length (filter (\<lambda>word. str_includes lowerCaseComment word) pos);
          negativeCount = length (filter (\<lambda>word. str_includes lowerCaseComment word) neg)
      in if positiveCount > negativeCount then Agree
         else if negativeCount > positiveCount then Disagree
         else Neutral)"

definition fallbackSentimentAnalysis :: "string \<Rightarrow> sentiment" where
  "fallbackSentimentAnalysis comment = keywordSentiment positiveWords negativeWords comment"

definition fallbackSentimentAnalysis_v2 :: "string \<Rightarrow> sentiment" where
  "fallbackSentimentAnalysis_v2 comment =
     keywordSentiment positiveWords_v2 negativeWords_v2 comment"

text \<open>
  The fallback classifier in the words of the specification: a term is counted when it
  occurs in the lower-cased text, anywhere and without regard to token boundaries; the
  larger count wins and a tie is neutral.
\<close>

definition occursIn :: "string \<Rightarrow> string \<Rightarrow> bool" where
  "occursIn term txt = (\<exists>before after. txt = before @ term @ after)"

definition classify :: "string set \<Rightarrow> string set \<Rightarrow> string \<Rightarrow> sentiment" where
  "classify positive negative txt =
     (let p = card {w. w \<in> positive \<and> occursIn w (toLowerCase txt)};
          n = card {w. w \<in> negative \<and> occursIn w (toLowerCase txt)}
      in if p > n then Agree else if n > p then Disagree else Neutral)"

section \<open>The remote classifier, one comment at a time\<close>

text \<open>
  What \<open>analyzeSentiment\<close> does with the text of a successful response: trim, upper-case,
  then look for the label words in the order of the source.
\<close>

definition parseLabel :: "string \<Rightarrow> sentiment" where
  "parseLabel raw =
     (let text = toUpperCase (trim raw)
      in if str_includes text ''AGREE'' then Agree
         else if str_includes text ''DISAGREE'' then Disagree
         else Neutral)"

text \<open>
  An exception value carries the optional \<open>status\<close> field the retry test reads. A call of
  \<open>model.generateContent\<close> either fails with such a value or produces the response text.
\<close>

datatype js_error = JsError (status: "nat option")

type_synonym timestamp = int

record commentThread =
  thread_id :: string
  textDisplay :: string
  authorDisplayName :: string
  publishedAt :: timestamp

record comment_doc =
  videoId :: string
  commentId :: string
  maskedUsername :: string
  comment :: string
  sentiment :: sentiment
  timestamp :: timestamp

text \<open>
  Everything outside the process: the classification service (its answer to the
  \<open>n\<close>-th request of the process, for a given comment text), the comment source, the
  database driver (whether the \<open>n\<close>-th operation is rejected) and the runtime locale that
  \<open>toLocaleString("default", {month: "short"})\<close> consults.
\<close>

record env =
  gemini :: "nat \<Rightarrow> string \<Rightarrow> js_error + string"
  youtube :: "string \<Rightarrow> js_error + commentThread list option"
  dbfault :: "nat \<Rightarrow> bool"
  monthShort :: "timestamp \<Rightarrow> string"

text \<open>
  The state of the server process: the number of classification requests issued so far,
  every \<open>setTimeout\<close> wait in the order it was awaited (milliseconds), the number of
  database operations issued, and the stored comment documents in insertion order.
\<close>

record server_state =
  calls :: nat
  timers :: "nat list"
  dbops :: nat
  docs :: "comment_doc list"

text \<open>
  \<open>analyzeSentiment(comment, retries = 3, delay = 2000)\<close>. A failure is retried only when
  its status is 429 and retries are left, after waiting \<open>delay\<close>; the retry doubles the
  delay. Any other failure, or a 429 with no retries left, gives the keyword fallback.
\<close>

fun analyzeSentiment :: "env \<Rightarrow> string \<Rightarrow> nat \<Rightarrow> nat \<Rightarrow> server_state \<Rightarrow> sentiment \<times> server_state" where
  "analyzeSentiment e cmt 0 delay st =
     (case gemini e (calls st) cmt of
        Inr text \<Rightarrow> (parseLabel text, st\<lparr>calls := calls st + 1\<rparr>)
      | Inl error \<Rightarrow> (fallbackSentimentAnalysis cmt, st\<lparr>calls := calls st + 1\<rparr>))"
| "analyzeSentiment e cmt (Suc retries) delay st =
     (case gemini e (calls st) cmt of
        Inr text \<Rightarrow> (parseLabel text, st\<lparr>calls := calls st + 1\<rparr>)
      | Inl error \<Rightarrow>
          if status error = Some 429
          then analyzeSentiment e cmt retries (delay * 2)
                 (st\<lparr>calls := calls st + 1, timers := timers st @ [delay]\<rparr>)
          else (fallbackSentimentAnalysis cmt, st\<lparr>calls := calls st + 1\<rparr>))"

text \<open>
  The sequential \<open>rateLimiter\<close> of the first server file: one comment after the other,
  and a wait of 2000 ms after each of them. Its \<open>catch\<close> branch (push \<open>neutral\<close>) cannot
  be reached, since \<open>analyzeSentiment\<close> handles every failure itself.
\<close>

fun rateLimiter :: "env \<Rightarrow> commentThread list \<Rightarrow> server_state \<Rightarrow> sentiment list \<times> server_state" where
  "rateLimiter e [] st = ([], st)"
| "rateLimiter e (c # cs) st =
     (let (s, st1) = analyzeSentiment e (textDisplay c) 3 2000 st;
          st2 = st1\<lparr>timers := timers st1 @ [2000]\<rparr>;
          (ss, st3) = rateLimiter e cs st2
      in (s # ss, st3))"

section \<open>The batched scheduler of the later server file\<close>

text \<open>
  The later \<open>rateLimiter(comments, batchSize = 10, delayBetweenBatches = 2000)\<close> starts,
  for every comment of a batch, an asynchronous call of \<open>analyzeSentiment\<close> and awaits all
  of them with \<open>Promise.all\<close>, which delivers the outcomes by position, however the calls
  interleave; a call that throws counts as \<open>neutral\<close>. The later file binds no
  \<open>analyzeSentiment\<close> itself, so the callee is a parameter: \<open>an k txt\<close> is the outcome of
  the call made for the comment at position \<open>k\<close> of the list, whose text is \<open>txt\<close>, that
  is the sentiment the call resolves with or the exception it throws. Nothing is assumed
  about the order in which the calls of a batch issue their requests or settle; every
  call is taken to settle, since \<open>Promise.all\<close> waits for all of them.
\<close>

fun runBatch ::
  "(nat \<Rightarrow> string \<Rightarrow> js_error + sentiment) \<Rightarrow> nat \<Rightarrow> commentThread list \<Rightarrow> sentiment list" where
  "runBatch an k [] = []"
| "runBatch an k (c # cs) =
     (case an k (textDisplay c) of Inr s \<Rightarrow> s | Inl error \<Rightarrow> Neutral) # runBatch an (Suc k) cs"

text \<open>
  What the scheduler itself does, in order: a batch handed to \<open>Promise.all\<close>, or a wait
  between two batches.
\<close>

datatype sched_event = Batch "commentThread list" | Delay nat

text \<open>
  The \<open>for (let i = 0; i < comments.length; i += batchSize)\<close> loop; the batch that starts
  at \<open>i\<close> holds the comments at the positions \<open>i\<close>, \<open>i + 1\<close>, ... With
  \<open>batchSize = 0\<close> and a comment left, the source never leaves the loop: \<open>None\<close>.
\<close>

function rateLimiter_loop ::
  "(nat \<Rightarrow> string \<Rightarrow> js_error + sentiment) \<Rightarrow> commentThread list \<Rightarrow> nat \<Rightarrow> nat \<Rightarrow> nat \<Rightarrow>
   sentiment list \<times> sched_event list \<Rightarrow> (sentiment list \<times> sched_event list) option" where
  "rateLimiter_loop an comments batchSize delayBetweenBatches i (sentiments, trace) =
     (if i < length comments then
        (if batchSize = 0 then None
         else
           (let batch = take batchSize (drop i comments);
                batchResults = runBatch an i batch;
                waits = (if i + batchSize < length comments then [Delay delayBetweenBatches] else [])
            in rateLimiter_loop an comments batchSize delayBetweenBatches (i + batchSize)
                 (sentiments @ batchResults, trace @ [Batch batch] @ waits)))
      else Some (sentiments, trace))"
  by pat_completeness auto
termination
  by (relation "measure (\<lambda>(an, comments, batchSize, d, i, acc). length comments - i)") auto

declare rateLimiter_loop.simps [simp del]

definition rateLimiter_batched ::
  "(nat \<Rightarrow> string \<Rightarrow> js_error + sentiment) \<Rightarrow> commentThread list \<Rightarrow> nat \<Rightarrow> nat \<Rightarrow>
   (sentiment list \<times> sched_event list) option" where
  "rateLimiter_batched an comments batchSize delayBetweenBatches =
     rateLimiter_loop an comments batchSize delayBetweenBatches 0 ([], [])"

section \<open>The batched request of the later server file\<close>

text \<open>
  \<open>analyzeAllComments(comments)\<close>: one request that carries the texts of all comments,
  numbered from 1; the answer is trimmed and handed to \<open>JSON.parse\<close>. An exception of the
  request or of the parser is logged and thrown again. The service and the parser are
  parameters.
\<close>

definition analyzeAllComments ::
  "(string list \<Rightarrow> js_error + string) \<Rightarrow> (string \<Rightarrow> js_error + 'j) \<Rightarrow> string list \<Rightarrow> js_error + 'j" where
  "analyzeAllComments generateContent JSON_parse texts =
     (case generateContent texts of
        Inl error \<Rightarrow> Inl error
      | Inr reply \<Rightarrow>
          (case JSON_parse (trim reply) of
             Inl error \<Rightarrow> Inl error
           | Inr sentimentResults \<Rightarrow> Inr sentimentResults))"

section \<open>Aggregation\<close>

definition months :: "string list" where
  "months = [''Jan'', ''Feb'', ''Mar'', ''Apr'', ''May'', ''Jun'',
             ''Jul'', ''Aug'', ''Sep'', ''Oct'', ''Nov'', ''Dec'']"

text \<open>
  A JavaScript object with string keys, in insertion order. The value of a month bucket
  is a count, or \<open>NaN\<close> (here \<open>None\<close>) once \<open>++\<close> was applied to a missing key.
\<close>

type_synonym dist_obj = "(string \<times> nat option) list"

fun setKey :: "(string \<times> 'a) list \<Rightarrow> string \<Rightarrow> 'a \<Rightarrow> (string \<times> 'a) list" where
  "setKey [] k v = [(k, v)]"
| "setKey ((k', v') # d) k v = (if k' = k then (k, v) # d else (k', v') # setKey d k v)"

definition allMonths :: dist_obj where
  "allMonths = foldl (\<lambda>distribution month. setKey distribution month (Some 0)) [] months"

text \<open>\<open>distribution[month]++\<close>: a missing key reads \<open>undefined\<close>, and \<open>undefined + 1\<close> is \<open>NaN\<close>.\<close>

definition incrMonth :: "dist_obj \<Rightarrow> string \<Rightarrow> dist_obj" where
  "incrMonth distribution month =
     (case map_of distribution month of
        None \<Rightarrow> setKey distribution month None
      | Some None \<Rightarrow> setKey distribution month None
      | Some (Some n) \<Rightarrow> setKey distribution month (Some (n + 1)))"

text \<open>\<open>distribution[month] || 0\<close>: \<open>undefined\<close>, \<open>NaN\<close> and \<open>0\<close> all give \<open>0\<close>.\<close>

definition sortMonths :: "dist_obj \<Rightarrow> (string \<times> nat) list" where
  "sortMonths distribution =
     foldl (\<lambda>sortedDistribution month.
              setKey sortedDistribution month
                (case map_of distribution month of Some (Some n) \<Rightarrow> n | _ \<Rightarrow> 0))
       [] months"

record counts =
  agree_count :: nat
  disagree_count :: nat
  neutral_count :: nat

definition bump :: "counts \<Rightarrow> sentiment \<Rightarrow> counts" where
  "bump r s =
     (case s of
        Agree \<Rightarrow> r\<lparr>agree_count := agree_count r + 1\<rparr>
      | Disagree \<Rightarrow> r\<lparr>disagree_count := disagree_count r + 1\<rparr>
      | Neutral \<Rightarrow> r\<lparr>neutral_count := neutral_count r + 1\<rparr>)"

text \<open>
  JavaScript numbers are IEEE-754 binary64 values. A finite one is held as the rational
  it denotes, and an arithmetic result is the exact result rounded to the nearest value
  with a 53-bit significand, ties to even (\<open>toDouble\<close>). The exponent range is not
  bounded here; the quotients and products below lie between \<open>2^-32\<close> and \<open>100\<close>
  for any comment list a JavaScript array can hold, far inside the binary64 range, and the
  counts themselves are integers below \<open>2^53\<close>, which binary64 holds exactly.
\<close>

fun bitLength :: "nat \<Rightarrow> nat" where
  "bitLength n = (if n = 0 then 0 else Suc (bitLength (n div 2)))"

declare bitLength.simps [simp del]

definition pow2 :: "int \<Rightarrow> rat" where
  "pow2 e = (if 0 \<le> e then 2 ^ nat e else 1 / 2 ^ nat (- e))"

text \<open>For \<open>x > 0\<close>, the \<open>e\<close> with \<open>2^e \<le> x < 2^(e + 1)\<close>.\<close>

definition exponent :: "rat \<Rightarrow> int" where
  "exponent x =
     (if 1 \<le> x then int (bitLength (nat \<lfloor>x\<rfloor>)) - 1
      else - int (bitLength (nat \<lceil>1 / x\<rceil> - 1)))"

definition roundTiesToEven :: "rat \<Rightarrow> int" where
  "roundTiesToEven m =
     (let f = \<lfloor>m\<rfloor>; r = m - of_int f
      in if r < 1 / 2 then f else if 1 / 2 < r then f + 1 else if even f then f else f + 1)"

definition roundPositive :: "rat \<Rightarrow> rat" where
  "roundPositive x =
     (let ulp = pow2 (exponent x - 52) in of_int (roundTiesToEven (x / ulp)) * ulp)"

definition toDouble :: "rat \<Rightarrow> rat" where
  "toDouble x = (if x = 0 then 0 else if x < 0 then - roundPositive (- x) else roundPositive x)"

datatype number = NaN | Infinity | Finite rat

definition js_divide :: "nat \<Rightarrow> nat \<Rightarrow> number" where
  "js_divide a b =
     (if b = 0 then (if a = 0 then NaN else Infinity)
      else Finite (toDouble (of_nat a / of_nat b)))"

definition js_times :: "number \<Rightarrow> rat \<Rightarrow> number" where
  "js_times x k =
     (case x of NaN \<Rightarrow> NaN | Infinity \<Rightarrow> Infinity | Finite q \<Rightarrow> Finite (toDouble (q * k)))"

text \<open>
  The string \<open>x.toFixed(1)\<close>: \<open>"NaN"\<close>, \<open>"Infinity"\<close>, or the decimal with one
  fractional digit whose value is \<open>n / 10\<close>, where \<open>n\<close> is the integer nearest to
  \<open>10 * x\<close> for the exact value of the double \<open>x\<close>, the larger one on a tie (away
  from zero for a negative \<open>x\<close>).
\<close>

datatype fixed1 = NaN_text | Infinity_text | Tenths int

definition toFixed1 :: "number \<Rightarrow> fixed1" where
  "toFixed1 x =
     (case x of
        NaN \<Rightarrow> NaN_text
      | Infinity \<Rightarrow> Infinity_text
      | Finite q \<Rightarrow> (if q < 0 then Tenths (- \<lfloor>- q * 10 + 1 / 2\<rfloor>) else Tenths \<lfloor>q * 10 + 1 / 2\<rfloor>))"

definition percentage :: "nat \<Rightarrow> nat \<Rightarrow> fixed1" where
  "percentage n total_count = toFixed1 (js_times (js_divide n total_count) 100)"

section \<open>The request handler of the first server file\<close>

text \<open>The characters of the class \<open>[a-zA-Z0-9_-]\<close>.\<close>

definition idChar :: "char \<Rightarrow> bool" where
  "idChar c =
     (let n = (of_char c :: nat)
      in (97 \<le> n \<and> n \<le> 122) \<or> (65 \<le> n \<and> n \<le> 90) \<or> (48 \<le> n \<and> n \<le> 57) \<or> n = 95 \<or> n = 45)"

text \<open>
  \<open>url.match(/(?:v=|\/)([a-zA-Z0-9_-]{11})/)\<close>: the leftmost place where \<open>v=\<close> or
  \<open>/\<close> is followed by eleven characters of the class; the result is those eleven.
\<close>

fun extractVideoId :: "string \<Rightarrow> string option" where
  "extractVideoId [] = None"
| "extractVideoId (c # cs) =
     (let after = (if startsWith (c # cs) ''v='' then Some (drop 1 cs)
                   else if c = CHR ''/'' then Some cs
                   else None)
      in case after of
           None \<Rightarrow> extractVideoId cs
         | Some r \<Rightarrow>
             if 11 \<le> length r \<and> list_all idChar (take 11 r) then Some (take 11 r)
             else extractVideoId cs)"

text \<open>
  \<open>username.charAt(0) + "*".repeat(username.length - 1)\<close>. For the empty name the
  argument of \<open>repeat\<close> is \<open>-1\<close>, which throws a \<open>RangeError\<close>.
\<close>

definition maskUsername :: "string \<Rightarrow> js_error + string" where
  "maskUsername username =
     (case username of
        [] \<Rightarrow> Inl (JsError None)
      | c # cs \<Rightarrow> Inr (c # replicate (length cs) (CHR ''*'')))"

text \<open>
  \<open>Comment.findOne({ commentId })\<close> and \<open>Comment.create(doc)\<close>. Each is one database
  operation, rejected when the driver says so; \<open>findOne\<close> gives the first stored document
  with that identifier.
\<close>

definition findOne :: "env \<Rightarrow> string \<Rightarrow> server_state \<Rightarrow> (js_error + comment_doc option) \<times> server_state" where
  "findOne e cid st =
     (if dbfault e (dbops st) then (Inl (JsError None), st\<lparr>dbops := dbops st + 1\<rparr>)
      else (Inr (find (\<lambda>d. commentId d = cid) (docs st)), st\<lparr>dbops := dbops st + 1\<rparr>))"

definition create :: "env \<Rightarrow> comment_doc \<Rightarrow> server_state \<Rightarrow> (js_error + unit) \<times> server_state" where
  "create e doc st =
     (if dbfault e (dbops st) then (Inl (JsError None), st\<lparr>dbops := dbops st + 1\<rparr>)
      else (Inr (), st\<lparr>dbops := dbops st + 1, docs := docs st @ [doc]\<rparr>))"

text \<open>
  The body of the \<open>for (let i = 0; i < comments.length; i++)\<close> loop, for the comment
  \<open>comments[i]\<close> and the sentiment \<open>sentiments[i]\<close>. An exception leaves the loop.
\<close>

definition tallyOne ::
  "env \<Rightarrow> string \<Rightarrow> commentThread \<Rightarrow> sentiment \<Rightarrow> counts \<times> dist_obj \<Rightarrow> server_state \<Rightarrow>
   (js_error + counts \<times> dist_obj) \<times> server_state" where
  "tallyOne e vid c s acc st =
     (case acc of (analysisResults, distribution) \<Rightarrow>
      (case findOne e (thread_id c) st of
         (Inl error, st1) \<Rightarrow> (Inl error, st1)
       | (Inr (Some existingComment), st1) \<Rightarrow>
           (Inr (bump analysisResults (sentiment existingComment),
                 incrMonth distribution (monthShort e (timestamp existingComment))), st1)
       | (Inr None, st1) \<Rightarrow>
           (let analysisResults' = bump analysisResults s;
                distribution' = incrMonth distribution (monthShort e (publishedAt c))
            in case maskUsername (authorDisplayName c) of
                 Inl error \<Rightarrow> (Inl error, st1)
               | Inr masked \<Rightarrow>
                   (case create e \<lparr>videoId = vid, commentId = thread_id c, maskedUsername = masked,
                                   comment = textDisplay c, sentiment = s,
                                   timestamp = publishedAt c\<rparr> st1 of
                      (Inl error, st2) \<Rightarrow> (Inl error, st2)
                    | (Inr u, st2) \<Rightarrow> (Inr (analysisResults', distribution'), st2)))))"

text \<open>
  The loop over the comments paired with their sentiments. \<open>rateLimiter\<close> returns one
  sentiment per comment, so \<open>zip\<close> pairs \<open>comments[i]\<close> with \<open>sentiments[i]\<close>.
\<close>

fun tally ::
  "env \<Rightarrow> string \<Rightarrow> (commentThread \<times> sentiment) list \<Rightarrow> counts \<times> dist_obj \<Rightarrow> server_state \<Rightarrow>
   (js_error + counts \<times> dist_obj) \<times> server_state" where
  "tally e vid [] acc st = (Inr acc, st)"
| "tally e vid ((c, s) # rest) acc st =
     (case tallyOne e vid c s acc st of
        (Inl error, st1) \<Rightarrow> (Inl error, st1)
      | (Inr acc1, st1) \<Rightarrow> tally e vid rest acc1 st1)"

record percentages =
  agree :: fixed1
  disagree :: fixed1
  neutral :: fixed1

record analysisResult =
  sentimentAnalysis :: percentages
  totalComments :: nat
  distribution :: "(string \<times> nat) list"

datatype http_response = Json analysisResult | Failure nat string

definition summarise :: "counts \<times> dist_obj \<Rightarrow> analysisResult" where
  "summarise acc =
     (case acc of (analysisResults, monthCounts) \<Rightarrow>
        (let total_count = agree_count analysisResults + disagree_count analysisResults
                             + neutral_count analysisResults
         in \<lparr>sentimentAnalysis =
               \<lparr>agree = percentage (agree_count analysisResults) total_count,
                disagree = percentage (disagree_count analysisResults) total_count,
                neutral = percentage (neutral_count analysisResults) total_count\<rparr>,
             totalComments = total_count,
             distribution = sortMonths monthCounts\<rparr>))"

text \<open>
  \<open>app.post("/api/analyze", ...)\<close>: status 400 without a video identifier, 404 when the
  comment source has no \<open>items\<close> field (an empty array is an array and passes), 500 for
  every exception inside the handler, and the JSON result otherwise.
\<close>

definition analyze :: "env \<Rightarrow> string \<Rightarrow> server_state \<Rightarrow> http_response \<times> server_state" where
  "analyze e url st =
     (case extractVideoId url of
        None \<Rightarrow> (Failure 400 ''Invalid YouTube URL'', st)
      | Some vid \<Rightarrow>
          (case youtube e vid of
             Inl error \<Rightarrow> (Failure 500 ''Failed to analyze comments'', st)
           | Inr None \<Rightarrow> (Failure 404 ''No comments found'', st)
           | Inr (Some comments) \<Rightarrow>
               (let (sentiments, st1) = rateLimiter e comments st
                in case tally e vid (zip comments sentiments)
                          (\<lparr>agree_count = 0, disagree_count = 0, neutral_count = 0\<rparr>, allMonths) st1 of
                     (Inl error, st2) \<Rightarrow> (Failure 500 ''Failed to analyze comments'', st2)
                   | (Inr acc, st2) \<Rightarrow> (Json (summarise acc), st2))))"

section \<open>Notions used to state the properties\<close>

text \<open>The waits of \<open>j\<close> retries that start at \<open>d\<close> milliseconds and double each time.\<close>

definition backoff :: "nat \<Rightarrow> nat \<Rightarrow> nat list" where
  "backoff d j = map (\<lambda>i. d * 2 ^ i) [0..<j]"

text \<open>What the batched scheduler makes of the outcome of one call.\<close>

definition settle :: "js_error + sentiment \<Rightarrow> sentiment" where
  "settle r = (case r of Inr s \<Rightarrow> s | Inl error \<Rightarrow> Neutral)"

text \<open>
  A list cut into consecutive pieces of \<open>n\<close> elements, the last piece holding what is
  left over.
\<close>

function chunks :: "nat \<Rightarrow> 'a list \<Rightarrow> 'a list list" where
  "chunks n xs = (if xs = [] \<or> n = 0 then [] else take n xs # chunks n (drop n xs))"
  by pat_completeness auto
termination
  by (relation "measure (\<lambda>(n, xs). length xs)") auto

declare chunks.simps [simp del]

text \<open>The batches in order, with one wait of \<open>d\<close> between two neighbours and none at the end.\<close>

fun schedule :: "nat \<Rightarrow> commentThread list list \<Rightarrow> sched_event list" where
  "schedule d [] = []"
| "schedule d [b] = [Batch b]"
| "schedule d (b # b' # bs) = Batch b # Delay d # schedule d (b' # bs)"

fun isDelay :: "sched_event \<Rightarrow> bool" where
  "isDelay (Delay d) = True"
| "isDelay (Batch b) = False"

text \<open>The count a month bucket contributes to the response, and the sum over the twelve.\<close>

definition bucket :: "dist_obj \<Rightarrow> string \<Rightarrow> nat" where
  "bucket d m = (case map_of d m of Some (Some n) \<Rightarrow> n | _ \<Rightarrow> 0)"


definition total_of :: "counts \<Rightarrow> nat" where
  "total_of r = agree_count r + disagree_count r + neutral_count r"


section \<open>Sample environments\<close>

text \<open>A database driver that rejects nothing, and one that rejects the second operation.\<close>

definition noFault :: "nat \<Rightarrow> bool" where
  "noFault n = False"

definition secondFails :: "nat \<Rightarrow> bool" where
  "secondFails n = (n = 1)"

definition freshState :: server_state where
  "freshState = \<lparr>calls = 0, timers = [], dbops = 0, docs = []\<rparr>"

text \<open>A runtime whose short month labels are the canonical twelve.\<close>

definition sampleMonth :: "timestamp \<Rightarrow> string" where
  "sampleMonth t = months ! nat (t mod 12)"

definition serviceEnv ::
  "(nat \<Rightarrow> string \<Rightarrow> js_error + string) \<Rightarrow> commentThread list option \<Rightarrow> (nat \<Rightarrow> bool) \<Rightarrow> env" where
  "serviceEnv g items f =
     \<lparr>gemini = g, youtube = (\<lambda>vid. Inr items), dbfault = f, monthShort = sampleMonth\<rparr>"

text \<open>
  Classification services: one that is rate-limited twice and then answers, one that is
  always rate-limited, one that is unreachable, one that always answers.
\<close>

definition flaky :: "nat \<Rightarrow> string \<Rightarrow> js_error + string" where
  "flaky n cmt = (if n < 2 then Inl (JsError (Some 429)) else Inr ''NEUTRAL'')"

definition limited :: "nat \<Rightarrow> string \<Rightarrow> js_error + string" where
  "limited n cmt = Inl (JsError (Some 429))"

definition down :: "nat \<Rightarrow> string \<Rightarrow> js_error + string" where
  "down n cmt = Inl (JsError None)"

definition steady :: "nat \<Rightarrow> string \<Rightarrow> js_error + string" where
  "steady n cmt = Inr ''AGREE''"

text \<open>
  The later server file as it stands: \<open>analyzeSentiment\<close> is not bound there, so every
  call of it throws a \<open>ReferenceError\<close>.
\<close>

definition analyzeSentiment_unbound :: "nat \<Rightarrow> string \<Rightarrow> js_error + sentiment" where
  "analyzeSentiment_unbound k txt = Inl (JsError None)"



text \<open>Sample comments, a sample request and the result of analysing the three comments.\<close>

definition commentA :: commentThread where
  "commentA = \<lparr>thread_id = ''UgxA'', textDisplay = ''I love this, it's great'',
               authorDisplayName = ''alice'', publishedAt = 0\<rparr>"

definition commentB :: commentThread where
  "commentB = \<lparr>thread_id = ''UgxB'', textDisplay = ''this is terrible and awful'',
               authorDisplayName = ''bob'', publishedAt = 8\<rparr>"

definition commentC :: commentThread where
  "commentC = \<lparr>thread_id = ''UgxC'', textDisplay = ''the video is 10 minutes long'',
               authorDisplayName = ''carol'', publishedAt = 8\<rparr>"

definition sampleUrl :: string where
  "sampleUrl = ''https://www.youtube.com/watch?v=dQw4w9WgXcQ''"

definition sampleResult :: analysisResult where
  "sampleResult =
     \<lparr>sentimentAnalysis = \<lparr>agree = Tenths 333, disagree = Tenths 333, neutral = Tenths 333\<rparr>,
      totalComments = 3,
      distribution =
        [(''Jan'', 1), (''Feb'', 0), (''Mar'', 0), (''Apr'', 0), (''May'', 0), (''Jun'', 0),
         (''Jul'', 0), (''Aug'', 0), (''Sep'', 2), (''Oct'', 0), (''Nov'', 0), (''Dec'', 0)]\<rparr>"

text \<open>The state a first analysis of the single comment \<open>commentA\<close> leaves behind.\<close>

definition warmState :: server_state where
  "warmState =
     \<lparr>calls = 1, timers = [2000], dbops = 2,
      docs = [\<lparr>videoId = ''dQw4w9WgXcQ'', commentId = ''UgxA'', maskedUsername = ''a****'',
               comment = ''I love this, it's great'', sentiment = Agree, timestamp = 0\<rparr>]\<rparr>"


section \<open>Substrings and the keyword fallback\<close>

lemma startsWith_prefix: "startsWith s w = prefix w s"
  by (induction s w rule: startsWith.induct) auto

lemma str_includes_sublist: "str_includes s w = sublist w s"
  by (induction s) (auto simp: startsWith_prefix sublist_Cons_right)

lemma occursIn_sublist: "occursIn w s = sublist w s"
  by (auto simp: occursIn_def sublist_def)

lemma length_filter_card:
  "distinct xs \<Longrightarrow> length (filter P xs) = card {w. w \<in> set xs \<and> P w}"
proof -
  assume d: "distinct xs"
  have "{w. w \<in> set xs \<and> P w} = {x. P x} \<inter> set xs" by auto
  with d show ?thesis by (simp only: distinct_length_filter)
qed

lemma keywordSentiment_classify:
  "distinct pos \<Longrightarrow> distinct neg \<Longrightarrow> keywordSentiment pos neg txt = classify (set pos) (set neg) txt"
  by (simp add: keywordSentiment_def classify_def length_filter_card str_includes_sublist occursIn_sublist Let_def)

lemma distinct_words: "distinct positiveWords" "distinct negativeWords"
  "distinct positiveWords_v2" "distinct negativeWords_v2"
  by (simp_all add: positiveWords_def negativeWords_def positiveWords_v2_def negativeWords_v2_def)

lemma disagree_agree: "str_includes s ''DISAGREE'' \<Longrightarrow> str_includes s ''AGREE''"
proof -
  assume "str_includes s ''DISAGREE''"
  then obtain ps ss where "s = ps @ ''DISAGREE'' @ ss"
    by (auto simp: str_includes_sublist sublist_def)
  then have "s = (ps @ ''DIS'') @ ''AGREE'' @ ss" by simp
  then show ?thesis unfolding str_includes_sublist sublist_def by blast
qed

lemma parseLabel_not_Disagree: "parseLabel raw \<noteq> Disagree"
  using disagree_agree by (auto simp: parseLabel_def Let_def)

section \<open>Retries of a single classification\<close>

lemma analyzeSentiment_calls_mono: "calls st < calls (snd (analyzeSentiment e cmt r d st))"
proof (induction r arbitrary: d st)
  case 0
  then show ?case by (simp split: sum.splits)
next
  case (Suc r)
  show ?case
  proof (cases "gemini e (calls st) cmt")
    case (Inr t) then show ?thesis by simp
  next
    case (Inl err)
    show ?thesis
    proof (cases "status err = Some 429")
      case True
      have "calls (st\<lparr>calls := calls st + 1, timers := timers st @ [d]\<rparr>)
            < calls (snd (analyzeSentiment e cmt r (d * 2) (st\<lparr>calls := calls st + 1, timers := timers st @ [d]\<rparr>)))"
        by (rule Suc.IH)
      with Inl True show ?thesis by simp
    next
      case False with Inl show ?thesis by simp
    qed
  qed
qed

lemma backoff_Suc: "backoff d (Suc j) = d # backoff (d * 2) j"
  by (simp add: backoff_def upt_conv_Cons map_Suc_upt[symmetric] del: upt_Suc)

lemma analyzeSentiment_retry:
  assumes "j \<le> r"
    and "\<forall>i<j. \<exists>err. gemini e (calls st + i) cmt = Inl err \<and> status err = Some 429"
    and "gemini e (calls st + j) cmt = Inr text"
  shows "analyzeSentiment e cmt r d st =
           (parseLabel text, st\<lparr>calls := calls st + j + 1, timers := timers st @ backoff d j\<rparr>)"
  using assms
proof (induction j arbitrary: r d st)
  case 0
  then show ?case by (cases r) (simp_all add: backoff_def)
next
  case (Suc j)
  then obtain r' where r: "r = Suc r'" "j \<le> r'" by (cases r) auto
  from Suc.prems(2) obtain err where err: "gemini e (calls st) cmt = Inl err" "status err = Some 429"
    by force
  let ?st = "st\<lparr>calls := calls st + 1, timers := timers st @ [d]\<rparr>"
  have a: "\<forall>i<j. \<exists>err. gemini e (calls ?st + i) cmt = Inl err \<and> status err = Some 429"
    using Suc.prems(2) by (auto dest: spec[where x="Suc i" for i])
  have b: "gemini e (calls ?st + j) cmt = Inr text" using Suc.prems(3) by simp
  have "analyzeSentiment e cmt r' (d * 2) ?st =
          (parseLabel text, ?st\<lparr>calls := calls ?st + j + 1, timers := timers ?st @ backoff (d * 2) j\<rparr>)"
    by (rule Suc.IH[OF r(2) a b])
  then show ?case using r err by (simp add: backoff_Suc)
qed

section \<open>The schedulers\<close>

lemma rateLimiter_length: "length (fst (rateLimiter e cs st)) = length cs"
  by (induction cs arbitrary: st) (simp_all add: case_prod_beta Let_def)

lemma rateLimiter_nth:
  "i < length cs \<Longrightarrow>
   fst (rateLimiter e cs st) ! i =
     fst (analyzeSentiment e (textDisplay (cs ! i)) 3 2000 (snd (rateLimiter e (take i cs) st)))"
proof (induction cs arbitrary: i st)
  case Nil
  then show ?case by simp
next
  case (Cons c cs)
  show ?case
  proof (cases i)
    case 0
    then show ?thesis by (simp add: case_prod_beta Let_def)
  next
    case (Suc k)
    with Cons.prems have k: "k < length cs" by simp
    show ?thesis
      using Cons.IH[OF k] Suc by (simp add: case_prod_beta Let_def)
  qed
qed

lemma runBatch_length: "length (runBatch an k cs) = length cs"
  by (induction cs arbitrary: k) simp_all

lemma runBatch_append:
  "runBatch an k (xs @ ys) = runBatch an k xs @ runBatch an (k + length xs) ys"
  by (induction xs arbitrary: k) simp_all

lemma runBatch_nth:
  "j < length cs \<Longrightarrow> runBatch an k cs ! j = settle (an (k + j) (textDisplay (cs ! j)))"
proof (induction cs arbitrary: j k)
  case Nil
  then show ?case by simp
next
  case (Cons c cs)
  show ?case
  proof (cases j)
    case 0
    then show ?thesis by (simp add: settle_def)
  next
    case (Suc m)
    with Cons.prems have m: "m < length cs" by simp
    show ?thesis using Cons.IH[OF m, of "Suc k"] Suc by simp
  qed
qed

lemma runBatch_map:
  "runBatch an 0 cs = map (\<lambda>i. settle (an i (textDisplay (cs ! i)))) [0..<length cs]"
  by (rule nth_equalityI) (simp_all add: runBatch_length runBatch_nth)

lemma schedule_snoc:
  "schedule d (bs @ [b]) = (if bs = [] then [Batch b] else schedule d bs @ [Delay d, Batch b])"
  by (induction d bs rule: schedule.induct) auto

lemma schedule_Cons:
  "schedule d (b # bs) = Batch b # (if bs = [] then [] else Delay d # schedule d bs)"
  by (cases bs) auto

lemma rateLimiter_loop_spec:
  "0 < b \<Longrightarrow> i \<le> length cs \<Longrightarrow>
   rateLimiter_loop an cs b d i (sents, tr) =
     Some (sents @ runBatch an i (drop i cs), tr @ schedule d (chunks b (drop i cs)))"
proof (induction an cs b d i "(sents, tr)" arbitrary: sents tr rule: rateLimiter_loop.induct)
  case (1 an cs b d i sents tr)
  show ?case
  proof (cases "i < length cs")
    case False
    with "1.prems" have "drop i cs = []" by simp
    with False show ?thesis by (subst rateLimiter_loop.simps) (simp add: chunks.simps)
  next
    case True
    let ?batch = "take b (drop i cs)"
    let ?rest = "drop (i + b) cs"
    let ?rs = "runBatch an i ?batch"
    have split: "drop i cs = ?batch @ ?rest"
      by (metis add.commute append_take_drop_id drop_drop)
    have ne: "drop i cs \<noteq> []" using True by simp
    have ch: "chunks b (drop i cs) = ?batch # chunks b ?rest"
      using ne "1.prems"(1) by (subst chunks.simps) (simp add: add.commute)
    have rest_empty: "(i + b < length cs) = (chunks b ?rest \<noteq> [])"
      using "1.prems"(1) by (subst chunks.simps) auto
    show ?thesis
    proof (cases "i + b \<le> length cs")
      case le: True
      then have len: "length ?batch = b" by simp
      have IH: "rateLimiter_loop an cs b d (i + b)
                  (sents @ ?rs, tr @ [Batch ?batch] @ (if i + b < length cs then [Delay d] else [])) =
                Some ((sents @ ?rs) @ runBatch an (i + b) ?rest,
                      (tr @ [Batch ?batch] @ (if i + b < length cs then [Delay d] else []))
                        @ schedule d (chunks b ?rest))"
        using "1.hyps"[OF True _ refl refl refl _ le] "1.prems"(1) by simp
      have "rateLimiter_loop an cs b d i (sents, tr) =
            rateLimiter_loop an cs b d (i + b)
                  (sents @ ?rs, tr @ [Batch ?batch] @ (if i + b < length cs then [Delay d] else []))"
        using True "1.prems"(1) by (subst rateLimiter_loop.simps) (simp add: Let_def)
      also note IH
      finally have run: "rateLimiter_loop an cs b d i (sents, tr) =
                Some ((sents @ ?rs) @ runBatch an (i + b) ?rest,
                      (tr @ [Batch ?batch] @ (if i + b < length cs then [Delay d] else []))
                        @ schedule d (chunks b ?rest))" .
      have "runBatch an i (drop i cs) = runBatch an i (?batch @ ?rest)" using split by simp
      then have tgt: "runBatch an i (drop i cs) = ?rs @ runBatch an (i + b) ?rest"
        using len by (simp only: runBatch_append)
      show ?thesis
        using rest_empty by (simp only: run tgt ch) (simp add: schedule_Cons)
    next
      case gt: False
      then have e: "?rest = []" by simp
      have "rateLimiter_loop an cs b d i (sents, tr) =
            rateLimiter_loop an cs b d (i + b) (sents @ ?rs, tr @ [Batch ?batch])"
        using True "1.prems"(1) gt by (subst rateLimiter_loop.simps) (simp add: Let_def)
      also have "\<dots> = Some (sents @ ?rs, tr @ [Batch ?batch])"
        using gt by (subst rateLimiter_loop.simps) simp
      finally show ?thesis
        using e ch split by (simp add: chunks.simps[of b "[]"])
    qed
  qed
qed

lemma rateLimiter_batched_eq:
  "0 < b \<Longrightarrow>
   rateLimiter_batched an cs b d =
     Some (map (\<lambda>i. settle (an i (textDisplay (cs ! i)))) [0..<length cs], schedule d (chunks b cs))"
  by (simp add: rateLimiter_batched_def rateLimiter_loop_spec runBatch_map)

lemma concat_chunks: "0 < n \<Longrightarrow> concat (chunks n xs) = xs"
proof (induction n xs rule: chunks.induct)
  case (1 n xs)
  show ?case
  proof (cases "xs = []")
    case True then show ?thesis by (simp add: chunks.simps)
  next
    case False
    with 1 show ?thesis by (subst chunks.simps) simp
  qed
qed

lemma chunks_sizes:
  "0 < n \<Longrightarrow> B \<in> set (chunks n xs) \<Longrightarrow> 0 < length B \<and> length B \<le> n"
proof (induction n xs rule: chunks.induct)
  case (1 n xs)
  show ?case
  proof (cases "xs = []")
    case True with "1.prems" show ?thesis by (simp add: chunks.simps)
  next
    case False
    from "1.prems"(2) have "B = take n xs \<or> B \<in> set (chunks n (drop n xs))"
      using False "1.prems"(1) by (subst (asm) chunks.simps) simp
    then show ?thesis
    proof
      assume "B = take n xs"
      with False "1.prems"(1) show ?thesis by (cases xs) auto
    next
      assume "B \<in> set (chunks n (drop n xs))"
      with "1.IH" False "1.prems"(1) show ?thesis by simp
    qed
  qed
qed

lemma chunks_full:
  "0 < n \<Longrightarrow> B \<in> set (butlast (chunks n xs)) \<Longrightarrow> length B = n"
proof (induction n xs rule: chunks.induct)
  case (1 n xs)
  show ?case
  proof (cases "xs = []")
    case True with "1.prems" show ?thesis by (simp add: chunks.simps)
  next
    case False
    have ch: "chunks n xs = take n xs # chunks n (drop n xs)"
      using False "1.prems"(1) by (subst chunks.simps) simp
    show ?thesis
    proof (cases "chunks n (drop n xs) = []")
      case True
      with ch "1.prems"(2) show ?thesis by simp
    next
      case ne: False
      then have "drop n xs \<noteq> []" by (subst (asm) chunks.simps) auto
      then have len: "n < length xs" by simp
      from ch ne "1.prems"(2) have "B = take n xs \<or> B \<in> set (butlast (chunks n (drop n xs)))"
        by simp
      then show ?thesis
      proof
        assume "B = take n xs" with len show ?thesis by simp
      next
        assume "B \<in> set (butlast (chunks n (drop n xs)))"
        with "1.IH" False "1.prems"(1) show ?thesis by simp
      qed
    qed
  qed
qed

lemma chunks_25:
  assumes "length xs = 25"
  shows "chunks 10 xs = [take 10 xs, take 10 (drop 10 xs), drop 20 xs]"
proof -
  have a: "xs \<noteq> []" "drop 10 xs \<noteq> []" "drop 20 xs \<noteq> []" "drop 30 xs = []"
    using assms by auto
  have "chunks 10 xs = take 10 xs # chunks 10 (drop 10 xs)"
    using a by (subst chunks.simps) simp
  also have "chunks 10 (drop 10 xs) = take 10 (drop 10 xs) # chunks 10 (drop 20 xs)"
    using a by (subst chunks.simps) simp
  also have "chunks 10 (drop 20 xs) = take 10 (drop 20 xs) # chunks 10 (drop 30 xs)"
    using a by (subst chunks.simps) simp
  also have "chunks 10 (drop 30 xs) = []"
    using a by (subst chunks.simps) simp
  also have "take 10 (drop 20 xs) = drop 20 xs" using assms by simp
  finally show ?thesis .
qed

section \<open>Month buckets and totals\<close>


lemma allMonths_eq: "allMonths = map (\<lambda>m. (m, Some 0)) months"
  by (simp add: allMonths_def months_def)

lemma sortMonths_eq: "sortMonths d = map (\<lambda>m. (m, bucket d m)) months"
  unfolding sortMonths_def bucket_def months_def by simp














section \<open>Rounding to binary64\<close>

lemma bitLength_bounds: "0 < n \<Longrightarrow> 2 ^ (bitLength n - 1) \<le> n \<and> n < 2 ^ bitLength n"
proof (induction n rule: bitLength.induct)
  case (1 n)
  show ?case
  proof (cases "n div 2 = 0")
    case True
    with "1.prems" have "n = 1" by (simp add: div_eq_0_iff) 
    then show ?thesis by (simp add: bitLength.simps)
  next
    case False
    with "1.IH" "1.prems" have ih: "2 ^ (bitLength (n div 2) - 1) \<le> n div 2" "n div 2 < 2 ^ bitLength (n div 2)"
      by auto
    have pos: "0 < bitLength (n div 2)" using False by (simp add: bitLength.simps)
    have b: "bitLength n = Suc (bitLength (n div 2))" using "1.prems" by (subst bitLength.simps) simp
    have "(2::nat) ^ bitLength (n div 2) = 2 * 2 ^ (bitLength (n div 2) - 1)"
      using pos by (cases "bitLength (n div 2)") simp_all
    with ih(1) have lo: "2 ^ bitLength (n div 2) \<le> 2 * (n div 2)" by simp
    have hi: "n < 2 * 2 ^ bitLength (n div 2)" using ih(2) by linarith
    from lo hi b show ?thesis by simp
  qed
qed


lemma pow2_pos: "0 < pow2 e"
  by (simp add: pow2_def)

lemma pow2_powi: "pow2 e = 2 powi e"
  by (simp add: pow2_def power_int_def field_simps)

lemma pow2_shift: "pow2 (e - 52) * 2 ^ 52 = pow2 e"
proof -
  have "(2::rat) powi (e - 52) = 2 powi e / 2 powi 52" by (rule power_int_diff) simp
  then show ?thesis by (simp add: pow2_powi)
qed

lemma exponent_lower: "0 < x \<Longrightarrow> pow2 (exponent x) \<le> x"
proof (cases "1 \<le> x")
  case True
  let ?n = "nat \<lfloor>x\<rfloor>"
  have n: "0 < ?n" using True by simp
  from bitLength_bounds[OF n] have lo: "2 ^ (bitLength ?n - 1) \<le> ?n" by simp
  have b: "0 < bitLength ?n" using n by (subst bitLength.simps) simp
  have "pow2 (exponent x) = 2 ^ (bitLength ?n - 1)"
    using True b by (simp add: exponent_def pow2_def nat_diff_distrib)
  also have "\<dots> = of_nat (2 ^ (bitLength ?n - 1))" by simp
  also have "\<dots> \<le> of_nat ?n" using lo by (simp only: of_nat_le_iff)
  also have "\<dots> \<le> x" using True by simp
  finally show ?thesis .
next
  case False
  assume x: "0 < x"
  from False x have inv: "1 < 1 / x" by simp
  let ?m = "nat \<lceil>1 / x\<rceil>"
  have m: "1 < ?m" using inv by linarith
  then have m1: "0 < ?m - 1" by simp
  define k where "k = bitLength (?m - 1)"
  from bitLength_bounds[OF m1] have hi: "?m - 1 < 2 ^ k" by (simp add: k_def)
  then have "?m \<le> 2 ^ k" by linarith
  then have b: "(of_nat ?m :: rat) \<le> of_nat (2 ^ k)" by (simp only: of_nat_le_iff)
  have a: "1 / x \<le> of_nat ?m" using inv by linarith
  have "1 / x \<le> of_nat (2 ^ k)" by (rule order_trans[OF a b])
  then have le: "1 / x \<le> 2 ^ k" by simp
  have "1 / 2 ^ k \<le> x"
    using le x by (simp add: field_simps)
  moreover have "pow2 (exponent x) = 1 / 2 ^ k"
    using False by (simp add: exponent_def pow2_def k_def)
  ultimately show ?thesis by simp
qed

lemma roundTiesToEven_close: "\<bar>of_int (roundTiesToEven m) - m\<bar> \<le> (1 / 2 :: rat)"
proof -
  define f where "f = \<lfloor>m\<rfloor>"
  have b: "of_int f \<le> m" "m < of_int f + 1" unfolding f_def by linarith+
  consider "m - of_int f < 1 / 2" | "1 / 2 < m - of_int f" | "m - of_int f = 1 / 2" by linarith
  then show ?thesis
  proof cases
    case 1
    then have "roundTiesToEven m = f" by (simp add: roundTiesToEven_def f_def Let_def)
    with 1 b show ?thesis by (simp; linarith)
  next
    case 2
    then have "roundTiesToEven m = f + 1" by (simp add: roundTiesToEven_def f_def Let_def)
    with 2 b show ?thesis by (simp; linarith)
  next
    case 3
    then have "roundTiesToEven m = f \<or> roundTiesToEven m = f + 1"
      by (simp add: roundTiesToEven_def f_def Let_def)
    with 3 b show ?thesis by (auto; linarith)
  qed
qed

lemma roundTiesToEven_nonneg: "0 \<le> m \<Longrightarrow> 0 \<le> roundTiesToEven m"
  unfolding roundTiesToEven_def Let_def by auto

lemma roundPositive_close:
  assumes "0 < x"
  shows "\<bar>roundPositive x - x\<bar> \<le> x / 2 ^ 53" and "0 \<le> roundPositive x"
proof -
  let ?u = "pow2 (exponent x - 52)"
  have u: "0 < ?u" by (rule pow2_pos)
  have "roundPositive x - x = (of_int (roundTiesToEven (x / ?u)) - x / ?u) * ?u"
    using u by (simp add: roundPositive_def Let_def field_simps)
  then have "\<bar>roundPositive x - x\<bar> = \<bar>of_int (roundTiesToEven (x / ?u)) - x / ?u\<bar> * ?u"
    using u by (simp add: abs_mult)
  also have "\<dots> \<le> 1 / 2 * ?u"
    using roundTiesToEven_close[of "x / ?u"] u by (intro mult_right_mono) simp_all
  also have "\<dots> = pow2 (exponent x) / 2 ^ 53"
    using pow2_shift[of "exponent x"] by simp
  also have "\<dots> \<le> x / 2 ^ 53"
    using exponent_lower[OF assms] by (simp add: divide_right_mono)
  finally show "\<bar>roundPositive x - x\<bar> \<le> x / 2 ^ 53" .
  have "0 \<le> x / ?u" using assms u by simp
  then have "0 \<le> roundTiesToEven (x / ?u)" by (rule roundTiesToEven_nonneg)
  then show "0 \<le> roundPositive x" using u by (simp add: roundPositive_def Let_def)
qed

lemma toDouble_close:
  assumes "0 \<le> x"
  shows "\<bar>toDouble x - x\<bar> \<le> x / 2 ^ 53" and "0 \<le> toDouble x"
  using assms roundPositive_close[of x] by (auto simp: toDouble_def)


lemma bitLength_pos: "0 < n \<Longrightarrow> 0 < bitLength n"
  by (subst bitLength.simps) simp

lemma exponent_upper: "0 < x \<Longrightarrow> x < pow2 (exponent x + 1)"
proof (cases "1 \<le> x")
  case True
  let ?n = "nat \<lfloor>x\<rfloor>"
  have n: "0 < ?n" using True by simp
  from bitLength_bounds[OF n] have "?n < 2 ^ bitLength ?n" by simp
  then have "?n + 1 \<le> 2 ^ bitLength ?n" by linarith
  then have "(of_nat (?n + 1) :: rat) \<le> of_nat (2 ^ bitLength ?n)" by (simp only: of_nat_le_iff)
  moreover have "x < of_nat (?n + 1)" using True by simp linarith
  ultimately have "x < of_nat (2 ^ bitLength ?n)" by (rule less_le_trans[rotated])
  moreover have "pow2 (exponent x + 1) = 2 ^ bitLength ?n"
    using True by (simp add: exponent_def pow2_def)
  ultimately show ?thesis by simp
next
  case False
  assume x: "0 < x"
  from False x have inv: "1 < 1 / x" by simp
  let ?m = "nat \<lceil>1 / x\<rceil>"
  have m: "1 < ?m" using inv by linarith
  then have m1: "0 < ?m - 1" by simp
  define k where "k = bitLength (?m - 1)"
  have kpos: "0 < k" unfolding k_def by (rule bitLength_pos[OF m1])
  from bitLength_bounds[OF m1] have "2 ^ (k - 1) \<le> ?m - 1" by (simp add: k_def)
  then have "(of_nat (2 ^ (k - 1)) :: rat) \<le> of_nat (?m - 1)" by (simp only: of_nat_le_iff)
  moreover have "of_nat (?m - 1) < 1 / x" using inv m by (simp add: of_nat_diff) linarith
  ultimately have "of_nat (2 ^ (k - 1)) < 1 / x" by (rule le_less_trans)
  then have "2 ^ (k - 1) < 1 / x" by simp
  then have "x < 1 / 2 ^ (k - 1)" using x by (simp add: field_simps)
  moreover have "pow2 (exponent x + 1) = 1 / 2 ^ (k - 1)"
    using False kpos by (cases k) (simp_all add: exponent_def pow2_def k_def)
  ultimately show ?thesis by simp
qed

section \<open>Percentages\<close>

text \<open>
  Two quotients whose double differs from the exact value enough to change the digit
  that \<open>toFixed(1)\<close> prints: 23 of 80 is \<open>28.749999999999996\<close> and prints as 28.7, 41 of
  80 is \<open>51.24999999999999\<close> and prints as 51.2.
\<close>

lemma percentage_examples:
  "percentage 23 80 = Tenths 287" "percentage 41 80 = Tenths 512"
  by code_simp+

lemma percentage_close:
  assumes "t \<noteq> 0" and "c \<le> t"
  shows "\<exists>n. percentage c t = Tenths n
           \<and> \<bar>of_int n - 1000 * of_nat c / of_nat t\<bar> \<le> (1 / 2 + 1 / 1000 :: rat)"
proof -
  define q where "q = (of_nat c / of_nat t :: rat)"
  define y where "y = toDouble q"
  define z where "z = toDouble (y * 100)"
  define eps where "eps = (1 / 2 ^ 53 :: rat)"
  have eps: "0 \<le> eps" "eps \<le> 1" "3000 * eps \<le> 1 / 1000" by (simp_all add: eps_def)
  have q0: "0 \<le> q" by (simp add: q_def)
  have q1: "q \<le> 1" using assms by (simp add: q_def)
  from toDouble_close[OF q0] have y: "\<bar>y - q\<bar> \<le> q * eps" "0 \<le> y"
    by (simp_all add: y_def eps_def)
  have "q * eps \<le> 1 * eps" using q1 eps(1) by (rule mult_right_mono)
  with y(1) have yq: "\<bar>y - q\<bar> \<le> eps" by simp
  then have y2: "y \<le> 2" using q1 eps(2) by linarith
  have y100: "0 \<le> y * 100" using y(2) by simp
  from toDouble_close[OF y100] have z: "\<bar>z - y * 100\<bar> \<le> (y * 100) * eps" "0 \<le> z"
    by (simp_all add: z_def eps_def)
  have "(y * 100) * eps \<le> 200 * eps" using y2 eps(1) by (intro mult_right_mono) simp_all
  with z(1) have zy: "\<bar>z - y * 100\<bar> \<le> 200 * eps" by linarith
  have near: "\<bar>z * 10 - 1000 * q\<bar> \<le> 1 / 1000" using zy yq eps(3) by linarith
  have p: "percentage c t = Tenths \<lfloor>z * 10 + 1 / 2\<rfloor>"
    using assms(1) z(2)
    by (simp add: percentage_def js_divide_def js_times_def toFixed1_def z_def y_def q_def not_less)
  have "of_int \<lfloor>z * 10 + 1 / 2\<rfloor> \<le> z * 10 + 1 / 2" "z * 10 + 1 / 2 < of_int \<lfloor>z * 10 + 1 / 2\<rfloor> + 1"
    by linarith+
  with near have "\<bar>of_int \<lfloor>z * 10 + 1 / 2\<rfloor> - 1000 * q\<bar> \<le> 1 / 2 + 1 / 1000" by linarith
  with p show ?thesis by (auto simp: q_def)
qed

lemma three_near:
  fixes x y z :: rat and a d n :: int
  assumes "x + y + z = 1000"
    and "\<bar>of_int a - x\<bar> \<le> 1 / 2 + 1 / 1000"
    and "\<bar>of_int d - y\<bar> \<le> 1 / 2 + 1 / 1000"
    and "\<bar>of_int n - z\<bar> \<le> 1 / 2 + 1 / 1000"
  shows "\<bar>a + d + n - 1000\<bar> \<le> 1"
proof -
  have "(of_int (a + d + n) :: rat) < of_int 1002" using assms by (simp only: of_int_add; linarith)
  then have u: "a + d + n < 1002" by (simp only: of_int_less_iff)
  have "(of_int 998 :: rat) < of_int (a + d + n)" using assms by (simp only: of_int_add; linarith)
  then have l: "998 < a + d + n" by (simp only: of_int_less_iff)
  from u l show ?thesis by simp
qed

section \<open>Where the label of a classification comes from\<close>

lemma analyzeSentiment_giveup:
  assumes "j \<le> r"
    and "\<forall>i<j. \<exists>err. gemini e (calls st + i) cmt = Inl err \<and> status err = Some 429"
    and "gemini e (calls st + j) cmt = Inl err"
    and "status err \<noteq> Some 429 \<or> j = r"
  shows "analyzeSentiment e cmt r d st =
           (fallbackSentimentAnalysis cmt,
            st\<lparr>calls := calls st + j + 1, timers := timers st @ backoff d j\<rparr>)"
  using assms
proof (induction j arbitrary: r d st)
  case 0
  then show ?case by (cases r) (auto simp: backoff_def)
next
  case (Suc j)
  then obtain r' where r: "r = Suc r'" "j \<le> r'" by (cases r) auto
  from Suc.prems(2) obtain err0 where err0: "gemini e (calls st) cmt = Inl err0" "status err0 = Some 429"
    by force
  let ?st = "st\<lparr>calls := calls st + 1, timers := timers st @ [d]\<rparr>"
  have a: "\<forall>i<j. \<exists>err. gemini e (calls ?st + i) cmt = Inl err \<and> status err = Some 429"
    using Suc.prems(2) by (auto dest: spec[where x="Suc i" for i])
  have b: "gemini e (calls ?st + j) cmt = Inl err" using Suc.prems(3) by simp
  have c: "status err \<noteq> Some 429 \<or> j = r'" using Suc.prems(4) r by simp
  have "analyzeSentiment e cmt r' (d * 2) ?st =
          (fallbackSentimentAnalysis cmt,
           ?st\<lparr>calls := calls ?st + j + 1, timers := timers ?st @ backoff (d * 2) j\<rparr>)"
    by (rule Suc.IH[OF r(2) a b c])
  then show ?case using r err0 by (simp add: backoff_Suc)
qed

lemma analyzeSentiment_origin:
  "(\<exists>n text. gemini e n cmt = Inr text \<and> fst (analyzeSentiment e cmt r d st) = parseLabel text)
   \<or> ((\<exists>n err. gemini e n cmt = Inl err) \<and> fst (analyzeSentiment e cmt r d st) = fallbackSentimentAnalysis cmt)"
proof (induction r arbitrary: d st)
  case 0
  then show ?case by (cases "gemini e (calls st) cmt") auto
next
  case (Suc r)
  show ?case
  proof (cases "gemini e (calls st) cmt")
    case (Inr t) then show ?thesis by auto
  next
    case (Inl err)
    show ?thesis
    proof (cases "status err = Some 429")
      case True
      with Inl Suc.IH[of "d * 2" "st\<lparr>calls := calls st + 1, timers := timers st @ [d]\<rparr>"]
      show ?thesis by simp
    next
      case False with Inl show ?thesis by auto
    qed
  qed
qed

section \<open>The fallback, the label parse and the retry policy\<close>

text \<open>
  C5. The fallback classifier lower-cases the text, counts the terms of the positive and
  of the negative word list that occur in it as substrings (no token boundaries: "like"
  is found inside "likely"), and answers agree when the positive count is larger,
  disagree when the negative count is larger, neutral otherwise, the 0-0 tie included.
  Both servers' word lists are covered; the function is total and depends on the text
  alone. The three sentences of the specification get the stated labels.
\<close>

theorem fallback_classifier:
  "fallbackSentimentAnalysis txt = classify (set positiveWords) (set negativeWords) txt
   \<and> fallbackSentimentAnalysis_v2 txt = classify (set positiveWords_v2) (set negativeWords_v2) txt
   \<and> fallbackSentimentAnalysis ''I love this, it's great'' = Agree
   \<and> fallbackSentimentAnalysis ''this is terrible and awful'' = Disagree
   \<and> fallbackSentimentAnalysis ''the video is 10 minutes long'' = Neutral
   \<and> fallbackSentimentAnalysis_v2 ''I love this, it's great'' = Agree
   \<and> fallbackSentimentAnalysis_v2 ''this is terrible and awful'' = Disagree
   \<and> fallbackSentimentAnalysis_v2 ''the video is 10 minutes long'' = Neutral
   \<and> fallbackSentimentAnalysis ''Most likely'' = Agree"
proof (intro conjI)
  show "fallbackSentimentAnalysis txt = classify (set positiveWords) (set negativeWords) txt"
    unfolding fallbackSentimentAnalysis_def
    by (rule keywordSentiment_classify) (rule distinct_words)+
  show "fallbackSentimentAnalysis_v2 txt = classify (set positiveWords_v2) (set negativeWords_v2) txt"
    unfolding fallbackSentimentAnalysis_v2_def
    by (rule keywordSentiment_classify) (rule distinct_words)+
qed code_simp+

text \<open>
  C10. The label parse of \<open>analyzeSentiment\<close> never gives disagree: a text that contains
  DISAGREE contains AGREE, which is tested first, so the answer DISAGREE is read as agree.
  When \<open>analyzeSentiment\<close> does return disagree, the label is the keyword fallback's and
  some request for that comment failed.
\<close>

theorem parse_never_disagree:
  "parseLabel raw \<noteq> Disagree
   \<and> parseLabel ''DISAGREE'' = Agree
   \<and> (fst (analyzeSentiment e cmt retries delay st) = Disagree \<longrightarrow>
        fallbackSentimentAnalysis cmt = Disagree \<and> (\<exists>n err. gemini e n cmt = Inl err))"
proof (intro conjI impI)
  show "parseLabel raw \<noteq> Disagree" by (rule parseLabel_not_Disagree)
  show "parseLabel ''DISAGREE'' = Agree" by code_simp
next
  assume d: "fst (analyzeSentiment e cmt retries delay st) = Disagree"
  with analyzeSentiment_origin[of e cmt retries delay st] parseLabel_not_Disagree
  show "fallbackSentimentAnalysis cmt = Disagree" by metis
  from d analyzeSentiment_origin[of e cmt retries delay st] parseLabel_not_Disagree
  show "\<exists>n err. gemini e n cmt = Inl err" by metis
qed

theorem parse_never_disagree_witness:
  "fst (analyzeSentiment (serviceEnv down None noFault) ''so bad'' 3 2000 freshState) = Disagree
   \<and> fallbackSentimentAnalysis ''so bad'' = Disagree
   \<and> (\<exists>n err. gemini (serviceEnv down None noFault) n ''so bad'' = Inl err)"
proof -
  have h: "fst (analyzeSentiment (serviceEnv down None noFault) ''so bad'' 3 2000 freshState) = Disagree"
    by code_simp
  with parse_never_disagree[of _ "serviceEnv down None noFault" "''so bad''" 3 2000 freshState]
  show ?thesis by blast
qed

text \<open>
  C4. A single classification, called with the defaults. After \<open>j \<le> 3\<close> rate-limit
  failures (status 429) the call has waited 2000, 4000, ... (doubling) milliseconds,
  once per failure. If request \<open>j + 1\<close> then succeeds, the result is the label parsed
  from the remote answer, not the fallback; so a call that fails twice and succeeds on the
  third attempt is remote-derived. If it fails with another status, or it is the fourth
  rate-limit failure in a row, the result is the keyword fallback for that comment. In
  every case the call returns a sentiment.
\<close>

theorem retry_backoff:
  assumes "j \<le> 3"
    and "\<forall>i<j. \<exists>err. gemini e (calls st + i) cmt = Inl err \<and> status err = Some 429"
  shows "(gemini e (calls st + j) cmt = Inr reply \<longrightarrow>
            analyzeSentiment e cmt 3 2000 st =
              (parseLabel reply,
               st\<lparr>calls := calls st + j + 1, timers := timers st @ map (\<lambda>i. 2000 * 2 ^ i) [0..<j]\<rparr>))
       \<and> (gemini e (calls st + j) cmt = Inl err \<and> (status err \<noteq> Some 429 \<or> j = 3) \<longrightarrow>
            analyzeSentiment e cmt 3 2000 st =
              (fallbackSentimentAnalysis cmt,
               st\<lparr>calls := calls st + j + 1, timers := timers st @ map (\<lambda>i. 2000 * 2 ^ i) [0..<j]\<rparr>))"
  using analyzeSentiment_retry[OF assms, of reply 2000] analyzeSentiment_giveup[OF assms, of err 2000]
  by (auto simp: backoff_def)

theorem retry_backoff_witness:
  "analyzeSentiment (serviceEnv flaky None noFault) ''this is bad'' 3 2000 freshState =
     (Neutral, freshState\<lparr>calls := 3, timers := [2000, 4000]\<rparr>)
   \<and> analyzeSentiment (serviceEnv limited None noFault) ''this is bad'' 3 2000 freshState =
     (Disagree, freshState\<lparr>calls := 4, timers := [2000, 4000, 8000]\<rparr>)"
proof -
  have a: "\<forall>i<2. \<exists>err. gemini (serviceEnv flaky None noFault) (calls freshState + i) ''this is bad'' = Inl err
              \<and> status err = Some 429"
    by (simp add: serviceEnv_def noFault_def flaky_def freshState_def)
  have b: "\<forall>i<3. \<exists>err. gemini (serviceEnv limited None noFault) (calls freshState + i) ''this is bad'' = Inl err
              \<and> status err = Some 429"
    by (simp add: serviceEnv_def noFault_def limited_def freshState_def)
  have p: "parseLabel ''NEUTRAL'' = Neutral" by code_simp
  have f: "fallbackSentimentAnalysis ''this is bad'' = Disagree" by code_simp
  have u2: "[0..<2] = [0, 1]" and u3: "[0..<3] = [0, 1, 2]" by (simp_all add: upt_rec)
  from retry_backoff[of 2 "serviceEnv flaky None noFault" freshState "''this is bad''" "''NEUTRAL''", OF _ a]
       retry_backoff[of 3 "serviceEnv limited None noFault" freshState "''this is bad''" _ "JsError (Some 429)", OF _ b]
  show ?thesis
    by (simp add: serviceEnv_def noFault_def flaky_def limited_def freshState_def p f u2 u3)
qed

section \<open>The handler and its result\<close>

lemma sampleUrl_id: "extractVideoId sampleUrl = Some ''dQw4w9WgXcQ''"
  by code_simp

lemma analyze_empty:
  assumes "extractVideoId url = Some vid" and "youtube e vid = Inr (Some [])"
  shows "analyze e url st =
   (Json \<lparr>sentimentAnalysis = \<lparr>agree = NaN_text, disagree = NaN_text, neutral = NaN_text\<rparr>,
        totalComments = 0,
        distribution = [(''Jan'', 0), (''Feb'', 0), (''Mar'', 0), (''Apr'', 0), (''May'', 0), (''Jun'', 0),
                        (''Jul'', 0), (''Aug'', 0), (''Sep'', 0), (''Oct'', 0), (''Nov'', 0), (''Dec'', 0)]\<rparr>, st)"
proof -
  have s: "sortMonths allMonths = [(''Jan'', 0), (''Feb'', 0), (''Mar'', 0), (''Apr'', 0), (''May'', 0), (''Jun'', 0),
                        (''Jul'', 0), (''Aug'', 0), (''Sep'', 0), (''Oct'', 0), (''Nov'', 0), (''Dec'', 0)]"
    by (simp add: sortMonths_eq bucket_def allMonths_eq months_def)
  have p: "percentage 0 0 = NaN_text"
    by (simp add: percentage_def js_divide_def js_times_def toFixed1_def)
  show ?thesis using assms by (simp add: analyze_def summarise_def s p)
qed

lemma rateLimiter_steady:
  assumes "\<forall>n c. \<exists>reply. gemini e n c = Inr reply"
  shows "timers (snd (rateLimiter e cs st)) = timers st @ replicate (length cs) 2000"
proof (induction cs arbitrary: st)
  case Nil
  then show ?case by simp
next
  case (Cons c cs)
  from assms obtain reply where r: "gemini e (calls st) (textDisplay c) = Inr reply" by blast
  have a: "analyzeSentiment e (textDisplay c) 3 2000 st = (parseLabel reply, st\<lparr>calls := calls st + 1\<rparr>)"
    using r by (simp add: numeral_3_eq_3)
  show ?case using Cons.IH a by (simp add: case_prod_beta Let_def)
qed

lemma analyze_Json:
  assumes "analyze e url st = (Json r, st')"
  shows "\<exists>vid comments acc.
    extractVideoId url = Some vid \<and> youtube e vid = Inr (Some comments) \<and>
    tally e vid (zip comments (fst (rateLimiter e comments st)))
       (\<lparr>agree_count = 0, disagree_count = 0, neutral_count = 0\<rparr>, allMonths)
       (snd (rateLimiter e comments st)) = (Inr acc, st') \<and>
    r = summarise acc"
proof -
  from assms obtain vid where v: "extractVideoId url = Some vid"
    by (cases "extractVideoId url") (simp_all add: analyze_def)
  from assms v obtain items where y: "youtube e vid = Inr items"
    by (cases "youtube e vid") (simp_all add: analyze_def)
  from assms v y obtain comments where c: "items = Some comments"
    by (cases items) (simp_all add: analyze_def)
  let ?t = "tally e vid (zip comments (fst (rateLimiter e comments st)))
       (\<lparr>agree_count = 0, disagree_count = 0, neutral_count = 0\<rparr>, allMonths)
       (snd (rateLimiter e comments st))"
  obtain res st2 where t: "?t = (res, st2)" by (cases ?t)
  from assms v y c t obtain acc where "res = Inr acc" "st2 = st'" "r = summarise acc"
    by (cases res) (simp_all add: analyze_def case_prod_beta Let_def)
  with v y c t show ?thesis by blast
qed

lemma summarise_fields:
  "totalComments (summarise acc) = total_of (fst acc)"
  "distribution (summarise acc) = sortMonths (snd acc)"
  "agree (sentimentAnalysis (summarise acc)) = percentage (agree_count (fst acc)) (total_of (fst acc))"
  "disagree (sentimentAnalysis (summarise acc)) = percentage (disagree_count (fst acc)) (total_of (fst acc))"
  "neutral (sentimentAnalysis (summarise acc)) = percentage (neutral_count (fst acc)) (total_of (fst acc))"
  by (simp_all add: summarise_def total_of_def case_prod_beta Let_def)


lemma permille_sum:
  fixes x y z T :: rat
  assumes "x + y + z = T" and "T \<noteq> 0"
  shows "1000 * x / T + 1000 * y / T + 1000 * z / T = 1000"
proof -
  have "1000 * x / T + 1000 * y / T + 1000 * z / T = (x + y + z) / T * 1000"
    by (simp add: add_divide_distrib algebra_simps)
  with assms show ?thesis by simp
qed

text \<open>
  C8. For every result with a non-zero total, each of the three percentages is a decimal
  with one fractional digit, \<open>a / 10\<close>, \<open>d / 10\<close> and \<open>n / 10\<close>, and their sum is within
  0.1 of 100.0: in tenths, \<open>a + d + n\<close> differs from 1000 by at most 1. The percentages
  are the ones computed on doubles: each quotient and each product is rounded to binary64
  before \<open>toFixed(1)\<close> rounds the result to a tenth.
\<close>

theorem percentages_sum:
  assumes "analyze e url st = (Json r, st')"
    and "totalComments r \<noteq> 0"
  shows "\<exists>a d n. agree (sentimentAnalysis r) = Tenths a
           \<and> disagree (sentimentAnalysis r) = Tenths d
           \<and> neutral (sentimentAnalysis r) = Tenths n
           \<and> \<bar>a + d + n - 1000\<bar> \<le> 1"
proof -
  from analyze_Json[OF assms(1)] obtain acc where r: "r = summarise acc"
    by blast
  let ?t = "total_of (fst acc)"
  let ?x = "\<lambda>c. 1000 * of_nat c / of_nat ?t :: rat"
  from assms(2) r have t: "?t \<noteq> 0" by (simp add: summarise_fields)
  have le: "agree_count (fst acc) \<le> ?t" "disagree_count (fst acc) \<le> ?t" "neutral_count (fst acc) \<le> ?t"
    by (simp_all add: total_of_def)
  have s: "(of_nat (agree_count (fst acc)) :: rat) + of_nat (disagree_count (fst acc))
             + of_nat (neutral_count (fst acc)) = of_nat ?t"
    by (simp add: total_of_def)
  have t': "(of_nat ?t :: rat) \<noteq> 0" using t by simp
  have sum: "?x (agree_count (fst acc)) + ?x (disagree_count (fst acc)) + ?x (neutral_count (fst acc)) = 1000"
    by (rule permille_sum[OF s t'])
  from percentage_close[OF t le(1)] obtain a where
    a: "percentage (agree_count (fst acc)) ?t = Tenths a"
       "\<bar>of_int a - ?x (agree_count (fst acc))\<bar> \<le> 1 / 2 + 1 / 1000" by blast
  from percentage_close[OF t le(2)] obtain d where
    d: "percentage (disagree_count (fst acc)) ?t = Tenths d"
       "\<bar>of_int d - ?x (disagree_count (fst acc))\<bar> \<le> 1 / 2 + 1 / 1000" by blast
  from percentage_close[OF t le(3)] obtain n where
    n: "percentage (neutral_count (fst acc)) ?t = Tenths n"
       "\<bar>of_int n - ?x (neutral_count (fst acc))\<bar> \<le> 1 / 2 + 1 / 1000" by blast
  have "\<bar>a + d + n - 1000\<bar> \<le> 1" by (rule three_near[OF sum a(2) d(2) n(2)])
  with a(1) d(1) n(1) show ?thesis
    unfolding r summarise_fields by blast
qed


lemma sample_labels:
  "fallbackSentimentAnalysis ''I love this, it's great'' = Agree"
  "fallbackSentimentAnalysis ''this is terrible and awful'' = Disagree"
  "fallbackSentimentAnalysis ''the video is 10 minutes long'' = Neutral"
  by code_simp+

lemma sample_sentiments:
  "rateLimiter (serviceEnv down items f) [commentA, commentB, commentC] freshState =
     ([Agree, Disagree, Neutral], freshState\<lparr>calls := 3, timers := [2000, 2000, 2000]\<rparr>)"
  by (simp add: serviceEnv_def noFault_def down_def commentA_def commentB_def commentC_def freshState_def
      numeral_3_eq_3 sample_labels)

lemma sample_tally:
  "fst (tally (serviceEnv g items noFault) vid
     [(commentA, Agree), (commentB, Disagree), (commentC, Neutral)]
     (\<lparr>agree_count = 0, disagree_count = 0, neutral_count = 0\<rparr>, allMonths)
     (freshState\<lparr>calls := 3, timers := [2000, 2000, 2000]\<rparr>)) =
   Inr (\<lparr>agree_count = 1, disagree_count = 1, neutral_count = 1\<rparr>,
        [(''Jan'', Some 1), (''Feb'', Some 0), (''Mar'', Some 0), (''Apr'', Some 0),
         (''May'', Some 0), (''Jun'', Some 0), (''Jul'', Some 0), (''Aug'', Some 0),
         (''Sep'', Some 2), (''Oct'', Some 0), (''Nov'', Some 0), (''Dec'', Some 0)])"
  by (simp add: serviceEnv_def noFault_def tallyOne_def findOne_def create_def maskUsername_def bump_def
      incrMonth_def allMonths_eq months_def sampleMonth_def
      commentA_def commentB_def commentC_def freshState_def)

lemma sample_percentage: "percentage (Suc 0) (Suc (Suc (Suc 0))) = Tenths 333"
proof -
  have "percentage 1 3 = Tenths 333" by code_simp
  then show ?thesis by (simp add: numeral_3_eq_3)
qed

lemma sample_run:
  "fst (analyze (serviceEnv down (Some [commentA, commentB, commentC]) noFault) sampleUrl freshState)
     = Json sampleResult"
proof -
  let ?e = "serviceEnv down (Some [commentA, commentB, commentC]) noFault"
  have y: "youtube ?e ''dQw4w9WgXcQ'' = Inr (Some [commentA, commentB, commentC])"
    by (simp add: serviceEnv_def noFault_def)
  let ?t = "tally ?e ''dQw4w9WgXcQ''
     [(commentA, Agree), (commentB, Disagree), (commentC, Neutral)]
     (\<lparr>agree_count = 0, disagree_count = 0, neutral_count = 0\<rparr>, allMonths)
     (freshState\<lparr>calls := 3, timers := [2000, 2000, 2000]\<rparr>)"
  obtain st2 where t: "?t = (Inr (\<lparr>agree_count = 1, disagree_count = 1, neutral_count = 1\<rparr>,
        [(''Jan'', Some 1), (''Feb'', Some 0), (''Mar'', Some 0), (''Apr'', Some 0),
         (''May'', Some 0), (''Jun'', Some 0), (''Jul'', Some 0), (''Aug'', Some 0),
         (''Sep'', Some 2), (''Oct'', Some 0), (''Nov'', Some 0), (''Dec'', Some 0)]), st2)"
    using sample_tally[of down "Some [commentA, commentB, commentC]" "''dQw4w9WgXcQ''"]
    by (cases ?t) simp
  show ?thesis
    by (simp add: analyze_def sampleUrl_id y sample_sentiments t summarise_def sample_percentage
        sortMonths_eq bucket_def months_def sampleResult_def
        del: rateLimiter.simps tally.simps)
qed


theorem percentages_sum_witness:
  "fst (analyze (serviceEnv down (Some [commentA, commentB, commentC]) noFault) sampleUrl freshState)
     = Json sampleResult
   \<and> totalComments sampleResult \<noteq> 0
   \<and> (\<exists>a d n. agree (sentimentAnalysis sampleResult) = Tenths a
           \<and> disagree (sentimentAnalysis sampleResult) = Tenths d
           \<and> neutral (sentimentAnalysis sampleResult) = Tenths n
           \<and> \<bar>a + d + n - 1000\<bar> \<le> 1)"
proof -
  let ?e = "serviceEnv down (Some [commentA, commentB, commentC]) noFault"
  have run: "analyze ?e sampleUrl freshState = (Json sampleResult, snd (analyze ?e sampleUrl freshState))"
    using sample_run by (simp add: prod_eq_iff)
  have nz: "totalComments sampleResult \<noteq> 0" by (simp add: sampleResult_def)
  from percentages_sum[OF run nz] sample_run nz show ?thesis by blast
qed




text \<open>
  C2. A comment source that answers with an empty array of items, for a valid video
  reference: the handler's test \<open>!response.data.items\<close> lets the empty array pass, the
  total is 0, and each percentage is \<open>(0 / 0 * 100).toFixed(1)\<close>, the text "NaN", in a
  response with status 200.
\<close>

theorem empty_items_give_NaN:
  "analyze (serviceEnv steady (Some []) noFault) sampleUrl freshState =
   (Json \<lparr>sentimentAnalysis = \<lparr>agree = NaN_text, disagree = NaN_text, neutral = NaN_text\<rparr>,
        totalComments = 0,
        distribution = [(''Jan'', 0), (''Feb'', 0), (''Mar'', 0), (''Apr'', 0), (''May'', 0), (''Jun'', 0),
                        (''Jul'', 0), (''Aug'', 0), (''Sep'', 0), (''Oct'', 0), (''Nov'', 0), (''Dec'', 0)]\<rparr>,
    freshState)"
  by (rule analyze_empty[OF sampleUrl_id]) (simp add: serviceEnv_def noFault_def)

section \<open>Order of the results and batches\<close>

text \<open>
  C6. Both schedulers return exactly one sentiment per comment, in the order of the
  input. For the sequential scheduler the \<open>i\<close>-th sentiment is what \<open>analyzeSentiment\<close>
  returns for the text of the \<open>i\<close>-th comment, called in the state the first \<open>i\<close>
  comments have left. For the batched scheduler, with any positive batch size and any
  delay, the \<open>i\<close>-th sentiment is the outcome of the call made for the \<open>i\<close>-th comment
  (neutral when that call throws), whatever the outcomes of the concurrent calls are;
  batch size and delay show in the trace only.
\<close>

theorem scheduler_keeps_order:
  "length (fst (rateLimiter e cs st)) = length cs
   \<and> (\<forall>i<length cs.
        fst (rateLimiter e cs st) ! i =
          fst (analyzeSentiment e (textDisplay (cs ! i)) 3 2000 (snd (rateLimiter e (take i cs) st))))
   \<and> (0 < batchSize \<longrightarrow>
        (\<exists>sents trace. rateLimiter_batched an cs batchSize delayBetweenBatches = Some (sents, trace)
           \<and> length sents = length cs
           \<and> (\<forall>i<length cs. sents ! i = settle (an i (textDisplay (cs ! i))))))"
proof (intro conjI allI impI)
  show "length (fst (rateLimiter e cs st)) = length cs" by (rule rateLimiter_length)
next
  fix i assume "i < length cs"
  then show "fst (rateLimiter e cs st) ! i =
          fst (analyzeSentiment e (textDisplay (cs ! i)) 3 2000 (snd (rateLimiter e (take i cs) st)))"
    by (rule rateLimiter_nth)
next
  assume "0 < batchSize"
  then show "\<exists>sents trace. rateLimiter_batched an cs batchSize delayBetweenBatches = Some (sents, trace)
           \<and> length sents = length cs
           \<and> (\<forall>i<length cs. sents ! i = settle (an i (textDisplay (cs ! i))))"
    by (simp add: rateLimiter_batched_eq)
qed

theorem scheduler_keeps_order_witness:
  "length (fst (rateLimiter (serviceEnv down None noFault) [commentA, commentB, commentC] freshState)) = 3
   \<and> fst (rateLimiter (serviceEnv down None noFault) [commentA, commentB, commentC] freshState) ! 1
       = fallbackSentimentAnalysis (textDisplay commentB)
   \<and> (\<exists>trace. rateLimiter_batched analyzeSentiment_unbound [commentA, commentB, commentC] 10 2000
                 = Some ([Neutral, Neutral, Neutral], trace))"
proof -
  let ?e = "serviceEnv down None noFault"
  let ?cs = "[commentA, commentB, commentC]"
  note k = scheduler_keeps_order[where e = ?e and cs = ?cs and st = freshState and batchSize = 10
      and an = analyzeSentiment_unbound and delayBetweenBatches = 2000]
  have one: "(1::nat) < length ?cs" by simp
  have pos: "(0::nat) < 10" by simp
  have a: "fst (analyzeSentiment ?e (textDisplay (?cs ! 1)) 3 2000 (snd (rateLimiter ?e (take 1 ?cs) freshState)))
            = fallbackSentimentAnalysis (textDisplay commentB)"
    by (simp add: serviceEnv_def noFault_def down_def numeral_3_eq_3 case_prod_beta)
  from k pos obtain sents trace where
    b: "rateLimiter_batched analyzeSentiment_unbound ?cs 10 2000 = Some (sents, trace)"
    and l: "length sents = 3"
    and n: "\<forall>i<3. sents ! i = settle (analyzeSentiment_unbound i (textDisplay (?cs ! i)))"
    by auto
  have "sents = [Neutral, Neutral, Neutral]"
    using l n by (intro nth_equalityI) (auto simp: settle_def analyzeSentiment_unbound_def less_Suc_eq numeral_3_eq_3)
  with k one a b show ?thesis by auto
qed

text \<open>
  C9, for the batched scheduler of the later server file. With a positive batch size the
  scheduler returns, and what it did is: the consecutive pieces of the comment list, each
  of the batch size except possibly the last (which is not empty and not larger), one
  after the other, with one wait of the given delay between two neighbouring batches and
  none after the last. With batch size 10, 25 comments make the three batches of 10, 10
  and 5 comments and two waits.
\<close>

theorem batched_schedule:
  assumes "0 < batchSize"
  shows "rateLimiter_batched an cs batchSize d =
           Some (map (\<lambda>i. settle (an i (textDisplay (cs ! i)))) [0..<length cs],
                 schedule d (chunks batchSize cs))
     \<and> concat (chunks batchSize cs) = cs
     \<and> (\<forall>B\<in>set (chunks batchSize cs). 0 < length B \<and> length B \<le> batchSize)
     \<and> (\<forall>B\<in>set (butlast (chunks batchSize cs)). length B = batchSize)
     \<and> (length cs = 25 \<and> batchSize = 10 \<longrightarrow>
          schedule d (chunks batchSize cs) =
            [Batch (take 10 cs), Delay d, Batch (take 10 (drop 10 cs)), Delay d, Batch (drop 20 cs)])"
proof (intro conjI ballI impI)
  show "rateLimiter_batched an cs batchSize d =
           Some (map (\<lambda>i. settle (an i (textDisplay (cs ! i)))) [0..<length cs],
                 schedule d (chunks batchSize cs))"
    using assms by (rule rateLimiter_batched_eq)
  show "concat (chunks batchSize cs) = cs" using assms by (rule concat_chunks)
next
  fix B assume "B \<in> set (chunks batchSize cs)"
  with assms show "0 < length B" "length B \<le> batchSize" using chunks_sizes by blast+
next
  fix B assume "B \<in> set (butlast (chunks batchSize cs))"
  with assms show "length B = batchSize" by (rule chunks_full)
next
  assume "length cs = 25 \<and> batchSize = 10"
  then show "schedule d (chunks batchSize cs) =
            [Batch (take 10 cs), Delay d, Batch (take 10 (drop 10 cs)), Delay d, Batch (drop 20 cs)]"
    by (simp add: chunks_25)
qed

theorem batched_schedule_witness:
  "rateLimiter_batched analyzeSentiment_unbound (replicate 25 commentA) 10 2000 =
     Some (replicate 25 Neutral,
           [Batch (replicate 10 commentA), Delay 2000, Batch (replicate 10 commentA), Delay 2000,
            Batch (replicate 5 commentA)])
   \<and> length (replicate 10 commentA) = 10 \<and> length (replicate 5 commentA) \<le> 10"
proof -
  note k = batched_schedule[where batchSize = 10 and d = 2000 and cs = "replicate 25 commentA"
      and an = analyzeSentiment_unbound]
  have pos: "(0::nat) < 10" by simp
  have len: "length (replicate 25 commentA) = 25 \<and> (10::nat) = 10" by simp
  have t: "take 10 (replicate 25 commentA) = replicate 10 commentA"
    "take 10 (drop 10 (replicate 25 commentA)) = replicate 10 commentA"
    "drop 20 (replicate 25 commentA) = replicate 5 commentA"
    by simp_all
  have m: "map (\<lambda>i. settle (analyzeSentiment_unbound i (textDisplay (replicate 25 commentA ! i))))
             [0..<length (replicate 25 commentA)] = replicate 25 Neutral"
    by (simp add: settle_def analyzeSentiment_unbound_def map_replicate_const)
  from k[OF pos] len t m show ?thesis by simp
qed

text \<open>
  The sequential scheduler of the first server file does not batch: with a service that
  always answers, 25 comments cost 25 waits of 2000 ms, one after every comment, the last
  included.
\<close>

theorem sequential_waits_counterexample:
  "timers (snd (rateLimiter (serviceEnv steady None noFault) (replicate 25 commentA) freshState))
     = replicate 25 2000"
proof -
  have "\<forall>n c. \<exists>reply. gemini (serviceEnv steady None noFault) n c = Inr reply"
    by (simp add: serviceEnv_def noFault_def steady_def)
  from rateLimiter_steady[OF this, of "replicate 25 commentA" freshState]
  show ?thesis by (simp add: freshState_def)
qed

section \<open>The store and the error surface\<close>

lemma analyzeSentiment_store:
  "dbops (snd (analyzeSentiment e cmt r d st)) = dbops st \<and> docs (snd (analyzeSentiment e cmt r d st)) = docs st"
proof (induction r arbitrary: d st)
  case 0
  then show ?case by (simp split: sum.splits)
next
  case (Suc r)
  show ?case
  proof (cases "gemini e (calls st) cmt")
    case (Inr t) then show ?thesis by simp
  next
    case (Inl err)
    show ?thesis
      using Inl Suc.IH[of "d * 2" "st\<lparr>calls := calls st + 1, timers := timers st @ [d]\<rparr>"]
      by (cases "status err = Some 429") simp_all
  qed
qed

lemma rateLimiter_store:
  "dbops (snd (rateLimiter e cs st)) = dbops st \<and> docs (snd (rateLimiter e cs st)) = docs st"
  by (induction cs arbitrary: st) (simp_all add: case_prod_beta Let_def analyzeSentiment_store)

lemma rateLimiter_calls: "calls st + length cs \<le> calls (snd (rateLimiter e cs st))"
proof (induction cs arbitrary: st)
  case Nil
  then show ?case by simp
next
  case (Cons c cs)
  let ?st1 = "snd (analyzeSentiment e (textDisplay c) 3 2000 st)"
  have "calls st < calls ?st1" by (rule analyzeSentiment_calls_mono)
  moreover have "calls (?st1\<lparr>timers := timers ?st1 @ [2000]\<rparr>) + length cs
                 \<le> calls (snd (rateLimiter e cs (?st1\<lparr>timers := timers ?st1 @ [2000]\<rparr>)))"
    by (rule Cons.IH)
  ultimately show ?case by (simp add: case_prod_beta Let_def)
qed

lemma tallyOne_ok:
  assumes "\<not> dbfault e (dbops st)" and "\<not> dbfault e (dbops st + 1)" and "authorDisplayName c \<noteq> []"
  shows "\<exists>acc' st'. tallyOne e vid c s acc st = (Inr acc', st')"
  using assms
  by (cases acc; cases "authorDisplayName c")
     (auto simp: tallyOne_def findOne_def create_def maskUsername_def Let_def split: option.splits)

lemma tally_ok:
  assumes "\<forall>n. \<not> dbfault e n" and "\<forall>p\<in>set ps. authorDisplayName (fst p) \<noteq> []"
  shows "\<exists>acc' st'. tally e vid ps acc st = (Inr acc', st')"
  using assms(2)
proof (induction ps arbitrary: acc st)
  case Nil
  then show ?case by simp
next
  case (Cons p ps)
  obtain c s where p: "p = (c, s)" by (cases p)
  from Cons.prems p have "authorDisplayName c \<noteq> []" by simp
  with assms(1) obtain acc1 st1 where "tallyOne e vid c s acc st = (Inr acc1, st1)"
    using tallyOne_ok by blast
  moreover from Cons.IH Cons.prems obtain acc' st' where "tally e vid ps acc1 st1 = (Inr acc', st')"
    by fastforce
  ultimately show ?case using p by simp
qed

lemma tallyOne_nofault:
  assumes "tallyOne e vid c s acc st = (Inr acc', st')"
  shows "dbops st \<le> dbops st' \<and> (\<forall>n. dbops st \<le> n \<and> n < dbops st' \<longrightarrow> \<not> dbfault e n)"
proof -
  have *: "dbops st \<le> n \<Longrightarrow> n < Suc (dbops st) \<Longrightarrow> n = dbops st" for n by simp
  have **: "dbops st \<le> n \<Longrightarrow> n < Suc (Suc (dbops st)) \<Longrightarrow> n = dbops st \<or> n = Suc (dbops st)" for n
    by auto
  show ?thesis
    using assms
    by (cases acc)
       (auto simp: tallyOne_def findOne_def create_def Let_def
          split: if_splits option.splits sum.splits dest: * **)
qed

lemma tally_nofault:
  assumes "tally e vid ps acc st = (Inr acc', st')"
  shows "dbops st \<le> dbops st' \<and> (\<forall>n. dbops st \<le> n \<and> n < dbops st' \<longrightarrow> \<not> dbfault e n)"
  using assms
proof (induction ps arbitrary: acc st)
  case Nil
  then show ?case by auto
next
  case (Cons p ps)
  obtain c s where p: "p = (c, s)" by (cases p)
  from Cons.prems p obtain acc1 st1 where
    one: "tallyOne e vid c s acc st = (Inr acc1, st1)" and
    rest: "tally e vid ps acc1 st1 = (Inr acc', st')"
    by (auto split: prod.splits sum.splits)
  from tallyOne_nofault[OF one] Cons.IH[OF rest] show ?case
    by (metis le_trans not_le)
qed

lemma analyze_outcome:
  assumes "extractVideoId url = Some vid" and "youtube e vid = Inr (Some comments)"
  shows "analyze e url st =
     (case tally e vid (zip comments (fst (rateLimiter e comments st)))
             (\<lparr>agree_count = 0, disagree_count = 0, neutral_count = 0\<rparr>, allMonths)
             (snd (rateLimiter e comments st)) of
        (Inl error, st2) \<Rightarrow> (Failure 500 ''Failed to analyze comments'', st2)
      | (Inr acc, st2) \<Rightarrow> (Json (summarise acc), st2))"
  using assms by (simp add: analyze_def case_prod_beta Let_def)

lemma sample_fault_run:
  "analyze (serviceEnv steady (Some [commentA]) secondFails) sampleUrl freshState =
     (Failure 500 ''Failed to analyze comments'', freshState\<lparr>calls := 1, timers := [2000], dbops := 2\<rparr>)"
proof -
  have p: "parseLabel ''AGREE'' = Agree" by code_simp
  show ?thesis
    by (simp add: analyze_def sampleUrl_id serviceEnv_def noFault_def steady_def p numeral_3_eq_3 freshState_def
      tallyOne_def findOne_def create_def maskUsername_def commentA_def Let_def secondFails_def)
qed

text \<open>
  C3, as the code has it. For a valid video reference whose comment source answers with a
  list of comments: when no database operation is rejected and no comment has an empty
  author name, the handler answers with a result, whatever the classification service
  does (its failures end in the keyword fallback and never surface). A rejected database
  operation, lookup or save, is not swallowed: the handler answers with status 500. In
  the later server file, \<open>analyzeAllComments\<close> throws a malformed batched answer on to
  its caller.
\<close>

theorem error_surface:
  assumes "extractVideoId url = Some vid" and "youtube e vid = Inr (Some comments)"
  shows "((\<forall>n. \<not> dbfault e n) \<and> (\<forall>c\<in>set comments. authorDisplayName c \<noteq> []) \<longrightarrow>
            (\<exists>r. fst (analyze e url st) = Json r))
       \<and> ((\<exists>n. dbops st \<le> n \<and> n < dbops (snd (analyze e url st)) \<and> dbfault e n) \<longrightarrow>
            fst (analyze e url st) = Failure 500 ''Failed to analyze comments'')
       \<and> (generateContent texts = Inr reply \<and> JSON_parse (trim reply) = Inl err \<longrightarrow>
            analyzeAllComments generateContent JSON_parse texts = Inl err)"
proof (intro conjI impI)
  let ?ps = "zip comments (fst (rateLimiter e comments st))"
  let ?init = "(\<lparr>agree_count = 0, disagree_count = 0, neutral_count = 0\<rparr>, allMonths)"
  let ?st1 = "snd (rateLimiter e comments st)"
  note out = analyze_outcome[OF assms, of st]
  {
    assume a: "(\<forall>n. \<not> dbfault e n) \<and> (\<forall>c\<in>set comments. authorDisplayName c \<noteq> [])"
    then have "\<forall>p\<in>set ?ps. authorDisplayName (fst p) \<noteq> []"
      by (auto dest: set_zip_leftD)
    with a obtain acc' st' where "tally e vid ?ps ?init ?st1 = (Inr acc', st')"
      using tally_ok by blast
    with out show "\<exists>r. fst (analyze e url st) = Json r" by simp
  }
  {
    assume "\<exists>n. dbops st \<le> n \<and> n < dbops (snd (analyze e url st)) \<and> dbfault e n"
    then obtain n where n: "dbops st \<le> n" "n < dbops (snd (analyze e url st))" "dbfault e n"
      by blast
    obtain res st2 where t: "tally e vid ?ps ?init ?st1 = (res, st2)"
      by (cases "tally e vid ?ps ?init ?st1")
    show "fst (analyze e url st) = Failure 500 ''Failed to analyze comments''"
    proof (cases res)
      case (Inl error)
      with out t show ?thesis by simp
    next
      case (Inr acc)
      with out t have "snd (analyze e url st) = st2" by simp
      moreover from tally_nofault[OF t[unfolded Inr]]
      have "\<forall>n. dbops ?st1 \<le> n \<and> n < dbops st2 \<longrightarrow> \<not> dbfault e n" by simp
      ultimately show ?thesis using n by (simp add: rateLimiter_store)
    qed
  }
  {
    assume "generateContent texts = Inr reply \<and> JSON_parse (trim reply) = Inl err"
    then show "analyzeAllComments generateContent JSON_parse texts = Inl err"
      by (simp add: analyzeAllComments_def)
  }
qed

theorem error_surface_witness:
  "fst (analyze (serviceEnv down (Some [commentA, commentB, commentC]) noFault) sampleUrl freshState)
     = Json sampleResult
   \<and> dbfault (serviceEnv steady (Some [commentA]) secondFails) 1
   \<and> dbops freshState \<le> 1
   \<and> 1 < dbops (snd (analyze (serviceEnv steady (Some [commentA]) secondFails) sampleUrl freshState))
   \<and> fst (analyze (serviceEnv steady (Some [commentA]) secondFails) sampleUrl freshState)
       = Failure 500 ''Failed to analyze comments''
   \<and> analyzeAllComments (\<lambda>texts. Inr ''{ 1: AGREE'') (\<lambda>s. (Inl (JsError None) :: js_error + unit))
       [''first comment''] = Inl (JsError None)"
proof -
  let ?e2 = "serviceEnv steady (Some [commentA]) secondFails"
  have y: "youtube ?e2 ''dQw4w9WgXcQ'' = Inr (Some [commentA])" by (simp add: serviceEnv_def noFault_def)
  have f: "dbfault ?e2 1" "dbops freshState \<le> 1" "1 < dbops (snd (analyze ?e2 sampleUrl freshState))"
    by (simp_all add: sample_fault_run) (simp_all add: serviceEnv_def noFault_def freshState_def secondFails_def)
  note k = error_surface[OF sampleUrl_id y, of freshState "\<lambda>texts. Inr ''{ 1: AGREE''" "[''first comment'']"
      "''{ 1: AGREE''" "\<lambda>s. (Inl (JsError None) :: js_error + unit)" "JsError None"]
  from k f sample_run show ?thesis by blast
qed

text \<open>
  A rejected save surfaces: one new comment, the lookup succeeds, the save is rejected,
  and the answer is status 500.
\<close>

theorem save_failure_counterexample:
  "fst (analyze (serviceEnv steady (Some [commentA]) secondFails) sampleUrl freshState)
     = Failure 500 ''Failed to analyze comments''"
  by (simp add: sample_fault_run)

section \<open>Analysing a video again\<close>

lemma find_append_Some: "find P xs = Some d \<Longrightarrow> find P (xs @ ys) = Some d"
  by (induction xs) auto

lemma find_append_None: "find P xs = None \<Longrightarrow> find P (xs @ ys) = find P ys"
  by (induction xs) (auto split: if_splits)

lemma tallyOne_docs:
  assumes "tallyOne e vid c s acc st = (res, st')"
  shows "\<exists>N. docs st' = docs st @ N"
  using assms
  by (cases acc)
     (auto simp: tallyOne_def findOne_def create_def Let_def
        split: if_splits option.splits sum.splits)

lemma tally_docs:
  assumes "tally e vid ps acc st = (res, st')"
  shows "\<exists>N. docs st' = docs st @ N"
  using assms
proof (induction ps arbitrary: acc st)
  case Nil
  then show ?case by simp
next
  case (Cons p ps)
  obtain c s where p: "p = (c, s)" by (cases p)
  obtain r1 st1 where one: "tallyOne e vid c s acc st = (r1, st1)"
    by (cases "tallyOne e vid c s acc st")
  from tallyOne_docs[OF one] obtain N1 where n1: "docs st1 = docs st @ N1" by blast
  show ?case
  proof (cases r1)
    case (Inl err)
    with Cons.prems p one n1 show ?thesis by auto
  next
    case (Inr acc1)
    with Cons.prems p one have "tally e vid ps acc1 st1 = (res, st')" by simp
    from Cons.IH[OF this] n1 show ?thesis by auto
  qed
qed

lemma tallyOne_replay:
  assumes one: "tallyOne e vid c s acc st = (Inr acc1, st1)"
    and loc: "monthShort e' = monthShort e"
    and ok: "\<forall>n. \<not> dbfault e' n"
    and later: "docs st2 = docs st1 @ X"
  shows "tallyOne e' vid c s' acc st2 = (Inr acc1, st2\<lparr>dbops := dbops st2 + 1\<rparr>)"
proof -
  obtain r d where acc: "acc = (r, d)" by (cases acc)
  from one have nf: "\<not> dbfault e (dbops st)"
    by (auto simp: tallyOne_def findOne_def acc split: if_splits)
  show ?thesis
  proof (cases "find (\<lambda>d. commentId d = thread_id c) (docs st)")
    case (Some ex)
    with one nf acc have a: "acc1 = (bump r (sentiment ex), incrMonth d (monthShort e (timestamp ex)))"
      and "docs st1 = docs st"
      by (auto simp: tallyOne_def findOne_def)
    with later Some have "find (\<lambda>d. commentId d = thread_id c) (docs st2) = Some ex"
      by (simp add: find_append_Some)
    with ok a acc loc show ?thesis by (simp add: tallyOne_def findOne_def)
  next
    case None
    with one nf acc obtain masked where
      m: "maskUsername (authorDisplayName c) = Inr masked"
      by (cases "maskUsername (authorDisplayName c)") (auto simp: tallyOne_def findOne_def Let_def)
    let ?doc = "\<lparr>videoId = vid, commentId = thread_id c, maskedUsername = masked,
                 comment = textDisplay c, sentiment = s, timestamp = publishedAt c\<rparr>"
    from one nf acc None m have a: "acc1 = (bump r s, incrMonth d (monthShort e (publishedAt c)))"
      and d1: "docs st1 = docs st @ [?doc]"
      by (auto simp: tallyOne_def findOne_def create_def Let_def split: if_splits)
    from later d1 None have "find (\<lambda>d. commentId d = thread_id c) (docs st2) = Some ?doc"
      by (simp add: find_append_None)
    with ok a acc loc show ?thesis by (simp add: tallyOne_def findOne_def)
  qed
qed

lemma tally_replay:
  assumes "tally e vid ps acc st = (Inr acc', st')"
    and "monthShort e' = monthShort e"
    and "\<forall>n. \<not> dbfault e' n"
    and "map fst ps' = map fst ps"
    and "docs st2 = docs st' @ X"
  shows "fst (tally e' vid ps' acc st2) = Inr acc' \<and> docs (snd (tally e' vid ps' acc st2)) = docs st2
         \<and> calls (snd (tally e' vid ps' acc st2)) = calls st2"
  using assms(1,4,5)
proof (induction ps arbitrary: ps' acc st st2)
  case Nil
  then show ?case by simp
next
  case (Cons p ps)
  obtain c s where p: "p = (c, s)" by (cases p)
  from Cons.prems(2) p obtain s' rest' where ps': "ps' = (c, s') # rest'" "map fst rest' = map fst ps"
    by (cases ps') auto
  from Cons.prems(1) p obtain acc1 st1 where
    one: "tallyOne e vid c s acc st = (Inr acc1, st1)" and
    rest: "tally e vid ps acc1 st1 = (Inr acc', st')"
    by (auto split: prod.splits sum.splits)
  from tally_docs[OF rest] obtain N where N: "docs st' = docs st1 @ N" by blast
  have later: "docs st2 = docs st1 @ (N @ X)" using Cons.prems(3) N by simp
  have step: "tallyOne e' vid c s' acc st2 = (Inr acc1, st2\<lparr>dbops := dbops st2 + 1\<rparr>)"
    by (rule tallyOne_replay[OF one assms(2,3) later])
  have "docs (st2\<lparr>dbops := dbops st2 + 1\<rparr>) = docs st' @ X" using Cons.prems(3) by simp
  from Cons.IH[OF rest ps'(2) this] step ps' show ?case by simp
qed

text \<open>
  C1, as the code has it. After an analysis that answered with a result, analysing the
  same video again answers with the same result and leaves the stored documents as they
  are, whatever the classification service now answers, as long as the comment source
  and the runtime locale are unchanged and no database operation is rejected. The
  service is nevertheless called again, at least once per comment: \<open>rateLimiter\<close>
  runs over all comments before the store is consulted.
\<close>

theorem warm_cache_rerun:
  assumes "analyze e url st = (Json r, st1)"
    and "youtube e' = youtube e"
    and "monthShort e' = monthShort e"
    and "\<forall>n. \<not> dbfault e' n"
    and "docs st2 = docs st1"
  shows "fst (analyze e' url st2) = Json r
       \<and> docs (snd (analyze e' url st2)) = docs st1
       \<and> (\<exists>vid comments. extractVideoId url = Some vid \<and> youtube e vid = Inr (Some comments)
             \<and> calls st2 + length comments \<le> calls (snd (analyze e' url st2)))"
proof -
  let ?init = "(\<lparr>agree_count = 0, disagree_count = 0, neutral_count = 0\<rparr>, allMonths)"
  from analyze_Json[OF assms(1)] obtain vid comments acc where
    v: "extractVideoId url = Some vid" and y: "youtube e vid = Inr (Some comments)" and
    t: "tally e vid (zip comments (fst (rateLimiter e comments st))) ?init
          (snd (rateLimiter e comments st)) = (Inr acc, st1)" and
    r: "r = summarise acc"
    by blast
  let ?ps' = "zip comments (fst (rateLimiter e' comments st2))"
  let ?st2 = "snd (rateLimiter e' comments st2)"
  have y': "youtube e' vid = Inr (Some comments)" using y assms(2) by simp
  have keys: "map fst ?ps' = map fst (zip comments (fst (rateLimiter e comments st)))"
    by (simp add: rateLimiter_length)
  have d: "docs ?st2 = docs st1 @ []" using assms(5) by (simp add: rateLimiter_store)
  from tally_replay[OF t assms(3,4) keys d]
  have f: "fst (tally e' vid ?ps' ?init ?st2) = Inr acc"
    and dd: "docs (snd (tally e' vid ?ps' ?init ?st2)) = docs ?st2"
    and cc: "calls (snd (tally e' vid ?ps' ?init ?st2)) = calls ?st2"
    by simp_all
  obtain st3 where t': "tally e' vid ?ps' ?init ?st2 = (Inr acc, st3)"
    using f by (cases "tally e' vid ?ps' ?init ?st2") simp
  have out: "analyze e' url st2 = (Json r, st3)"
    using analyze_outcome[OF v y', of st2] t' r by simp
  have "calls st2 + length comments \<le> calls st3"
    using cc t' rateLimiter_calls[of st2 comments e'] by simp
  moreover have "docs st3 = docs st1" using dd t' d by simp
  ultimately show ?thesis using out v y by auto
qed

theorem warm_cache_rerun_witness:
  "fst (analyze (serviceEnv steady (Some [commentA, commentB, commentC]) noFault) sampleUrl
         (snd (analyze (serviceEnv down (Some [commentA, commentB, commentC]) noFault) sampleUrl freshState)))
     = Json sampleResult
   \<and> docs (snd (analyze (serviceEnv steady (Some [commentA, commentB, commentC]) noFault) sampleUrl
         (snd (analyze (serviceEnv down (Some [commentA, commentB, commentC]) noFault) sampleUrl freshState))))
     = docs (snd (analyze (serviceEnv down (Some [commentA, commentB, commentC]) noFault) sampleUrl freshState))
   \<and> calls (snd (analyze (serviceEnv down (Some [commentA, commentB, commentC]) noFault) sampleUrl freshState)) + 3
       \<le> calls (snd (analyze (serviceEnv steady (Some [commentA, commentB, commentC]) noFault) sampleUrl
         (snd (analyze (serviceEnv down (Some [commentA, commentB, commentC]) noFault) sampleUrl freshState))))"
proof -
  let ?e = "serviceEnv down (Some [commentA, commentB, commentC]) noFault"
  let ?e' = "serviceEnv steady (Some [commentA, commentB, commentC]) noFault"
  have run: "analyze ?e sampleUrl freshState = (Json sampleResult, snd (analyze ?e sampleUrl freshState))"
    using sample_run by (simp add: prod_eq_iff)
  have a: "youtube ?e' = youtube ?e" "monthShort ?e' = monthShort ?e" "\<forall>n. \<not> dbfault ?e' n"
    by (simp_all add: serviceEnv_def noFault_def)
  have y: "youtube ?e vid = Inr (Some comments) \<Longrightarrow> length comments = 3" for vid comments
    by (auto simp: serviceEnv_def)
  from warm_cache_rerun[OF run a refl] y show ?thesis by fastforce
qed

text \<open>
  The only comment of the video is already stored, and the classification service is
  called all the same.
\<close>

theorem warm_cache_calls_counterexample:
  "commentId (hd (docs warmState)) = thread_id commentA
   \<and> calls (snd (analyze (serviceEnv steady (Some [commentA]) noFault) sampleUrl warmState))
       = calls warmState + 1"
proof -
  have p: "parseLabel ''AGREE'' = Agree" by code_simp
  show ?thesis
    by (simp add: analyze_def sampleUrl_id serviceEnv_def noFault_def steady_def p numeral_3_eq_3 warmState_def
      tallyOne_def findOne_def commentA_def Let_def)
qed

lemma warmState_first_run:
  "snd (analyze (serviceEnv down (Some [commentA]) noFault) sampleUrl freshState) = warmState"
  by (simp add: analyze_def sampleUrl_id serviceEnv_def noFault_def down_def sample_labels numeral_3_eq_3 warmState_def
      tallyOne_def findOne_def create_def maskUsername_def commentA_def Let_def freshState_def)

end
